theory Spec2Isabelle
  imports Complex_Main "HOL-Library.Word"
begin

section \<open>Floating-point numbers\<close>

text \<open>
  A JavaScript number is an IEEE double and an element of a \<open>Float32Array\<close> an IEEE
  single. The model represents a finite number of either kind by the rational it denotes
  and rounds the exact result of every arithmetic operation to the nearest representable
  number, ties to even, as the hardware does. The numbers the code computes here stay
  finite and in range, so infinities and NaN are not represented.
\<close>

text \<open>Rounding to the nearest integer, ties to the even one.\<close>

definition roundEven :: "rat \<Rightarrow> int" where
  "roundEven m =
     (let f = \<lfloor>m\<rfloor>; r = m - of_int f
      in if r < 1 / 2 then f else if 1 / 2 < r then f + 1 else if even f then f else f + 1)"

text \<open>
  The binary exponent of a positive number, \<open>\<lfloor>log\<^sub>2 x\<rfloor>\<close>: the number of halvings that
  bring it below 2, or minus the number of doublings that bring it to 1 or above.
\<close>

function halvings :: "rat \<Rightarrow> nat" where
  "halvings x = (if 2 \<le> x then Suc (halvings (x / 2)) else 0)"
  by pat_completeness auto
termination
proof (relation "measure (\<lambda>x. nat \<lfloor>x\<rfloor>)")
  show "wf (measure (\<lambda>x::rat. nat \<lfloor>x\<rfloor>))" by simp
next
  fix x :: rat
  assume a: "2 \<le> x"
  have "\<lfloor>x / 2\<rfloor> < \<lfloor>x\<rfloor>" using a by (simp add: floor_less_iff) linarith
  moreover have "0 < \<lfloor>x\<rfloor>" using a by simp
  ultimately show "(x / 2, x) \<in> measure (\<lambda>x. nat \<lfloor>x\<rfloor>)" by simp
qed

declare halvings.simps [simp del]

function doublings :: "rat \<Rightarrow> nat" where
  "doublings x = (if 0 < x \<and> x < 1 then Suc (doublings (2 * x)) else 0)"
  by pat_completeness auto
termination
proof (relation "measure (\<lambda>x. nat \<lceil>1 / x\<rceil>)")
  show "wf (measure (\<lambda>x::rat. nat \<lceil>1 / x\<rceil>))" by simp
next
  fix x :: rat
  assume a: "0 < x \<and> x < 1"
  then have y: "1 < 1 / x" by simp
  then have c: "2 \<le> \<lceil>1 / x\<rceil>" by (simp add: le_ceiling_iff) 
  have "1 / (2 * x) \<le> of_int \<lceil>1 / x\<rceil> / 2"
    using le_of_int_ceiling [of "1 / x"] by simp
  also have "\<dots> \<le> of_int (\<lceil>1 / x\<rceil> - 1)"
    using c by simp
  finally have "\<lceil>1 / (2 * x)\<rceil> \<le> \<lceil>1 / x\<rceil> - 1"
    by (simp only: ceiling_le_iff)
  with c a show "(2 * x, x) \<in> measure (\<lambda>x. nat \<lceil>1 / x\<rceil>)" by simp
qed

declare doublings.simps [simp del]

definition expo :: "rat \<Rightarrow> int" where
  "expo x = (if 1 \<le> x then int (halvings x) else - int (doublings x))"

text \<open>
  Rounding to \<open>p\<close> significant bits with least exponent \<open>emin\<close> (below it the spacing
  stays that of the subnormal numbers).
\<close>

definition roundTo :: "nat \<Rightarrow> int \<Rightarrow> rat \<Rightarrow> rat" where
  "roundTo p emin x =
     (if x = 0 then 0
      else
        let q = 2 powi (max (expo \<bar>x\<bar>) emin - int p + 1)
        in sgn x * of_int (roundEven (\<bar>x\<bar> / q)) * q)"

text \<open>Rounding to double precision, and to single precision (\<open>Math.fround\<close>).\<close>

definition dbl :: "rat \<Rightarrow> rat" where
  "dbl x = roundTo 53 (- 1022) x"

definition fround :: "rat \<Rightarrow> rat" where
  "fround x = roundTo 24 (- 126) x"


section \<open>Signal conditioner (AudioRecorder.tsx, processAudioChunk, lines 176-199)\<close>

text \<open>
  The constants of lines 176-177 are the doubles nearest to the decimal literals.
\<close>

definition noiseGateThreshold :: rat where
  "noiseGateThreshold = dbl (15 / 1000)"

definition smoothingFactor :: rat where
  "smoothingFactor = dbl (12 / 100)"

text \<open>
  The loop of lines 182-188; the first argument is the variable \<open>prev\<close>. The list gives
  the numbers held by \<open>channelData\<close>, a \<open>Float32Array\<close>: an element reads as the single
  nearest to it (itself, when it is a single). The smoothing is computed in doubles, one
  rounding for each operation, and the gated sample is stored in the \<open>Float32Array\<close>
  \<open>denoised\<close>, so it is rounded to single precision.
\<close>

fun denoise :: "rat \<Rightarrow> rat list \<Rightarrow> rat list" where
  "denoise prev [] = []"
| "denoise prev (x # rest) =
     (let raw = fround x;
          smooth = dbl (prev + dbl (smoothingFactor * dbl (raw - prev)))
      in fround (if \<bar>smooth\<bar> < noiseGateThreshold then 0 else smooth) # denoise smooth rest)"

text \<open>Truncation toward zero, the first step of storing a number in an integer typed array.\<close>

definition trunc :: "rat \<Rightarrow> int" where
  "trunc x = (if 0 \<le> x then \<lfloor>x\<rfloor> else \<lceil>x\<rceil>)"

text \<open>Storing a number into an \<open>Int16Array\<close> element: truncate, then wrap modulo 2^16.\<close>

definition toInt16 :: "rat \<Rightarrow> 16 word" where
  "toInt16 x = word_of_int (trunc x)"

text \<open>Lines 193-199: \<open>pcmData[i] = Math.max(-32768, Math.min(32767, sample * 32768))\<close>.\<close>

definition quantize :: "rat \<Rightarrow> 16 word" where
  "quantize sample = toInt16 (max (- 32768) (min 32767 (dbl (sample * 32768))))"

definition conditionSamples :: "rat list \<Rightarrow> 16 word list" where
  "conditionSamples channelData = map quantize (denoise 0 channelData)"

text \<open>
  The smoothed sequence as the specification writes it, by index:
  \<open>smooth[i] = smooth[i-1] + \<alpha> (raw[i] - smooth[i-1])\<close> with \<open>smooth[-1]\<close> the seed
  (the conditioner seeds it with 0), in the arithmetic of the code.
\<close>

fun smoothAt :: "rat \<Rightarrow> rat list \<Rightarrow> nat \<Rightarrow> rat" where
  "smoothAt seed raw 0 = dbl (seed + dbl (smoothingFactor * dbl (fround (raw ! 0) - seed)))"
| "smoothAt seed raw (Suc i) =
     dbl (smoothAt seed raw i
          + dbl (smoothingFactor * dbl (fround (raw ! Suc i) - smoothAt seed raw i)))"

definition gate :: "rat \<Rightarrow> rat" where
  "gate s = (if \<bar>s\<bar> < noiseGateThreshold then 0 else s)"

definition clamp16 :: "int \<Rightarrow> int" where
  "clamp16 k = max (- 32768) (min 32767 k)"


section \<open>Frame codec\<close>

text \<open>
  Errors raised by the platform functions the code calls; every \<open>throw\<close> is a value
  on the left of a sum.
\<close>

datatype error =
    InvalidCharacterError
  | RangeError
  | NotSupportedError
  | EncodingError

subsection \<open>The platform's \<open>btoa\<close> and \<open>atob\<close>\<close>

text \<open>
  A binary string is the list of its code units. \<open>btoa\<close> is base64 with padding and
  refuses code units above 255; \<open>atob\<close> is the forgiving base64 decoder: it drops ASCII
  whitespace, drops one or two padding characters when the length is a multiple of four,
  refuses a length that leaves remainder one and any character outside the alphabet, and
  discards the bits left over at the end.
\<close>

definition b64chars :: string where
  "b64chars = ''ABCDEFGHIJKLMNOPQRSTUVWXYZabcdefghijklmnopqrstuvwxyz0123456789+/''"

definition b64char :: "nat \<Rightarrow> char" where
  "b64char n = b64chars ! n"

fun indexOf :: "char \<Rightarrow> string \<Rightarrow> nat option" where
  "indexOf c [] = None"
| "indexOf c (d # ds) = (if c = d then Some 0 else map_option Suc (indexOf c ds))"

definition b64index :: "char \<Rightarrow> nat option" where
  "b64index c = indexOf c b64chars"

fun b64groups :: "nat list \<Rightarrow> string" where
  "b64groups [] = []"
| "b64groups [a] = [b64char (a div 4), b64char ((a mod 4) * 16), CHR ''='', CHR ''='']"
| "b64groups [a, b] =
     [b64char (a div 4), b64char ((a mod 4) * 16 + b div 16), b64char ((b mod 16) * 4),
      CHR ''='']"
| "b64groups (a # b # c # rest) =
     [b64char (a div 4), b64char ((a mod 4) * 16 + b div 16),
      b64char ((b mod 16) * 4 + c div 64), b64char (c mod 64)] @ b64groups rest"

definition btoa :: "nat list \<Rightarrow> error + string" where
  "btoa binary =
     (if \<exists>c\<in>set binary. 255 < c then Inl InvalidCharacterError else Inr (b64groups binary))"

definition asciiWhitespace :: "char \<Rightarrow> bool" where
  "asciiWhitespace c \<longleftrightarrow> c \<in> {CHR 0x09, CHR 0x0A, CHR 0x0C, CHR 0x0D, CHR '' ''}"

definition stripPadding :: "string \<Rightarrow> string" where
  "stripPadding d =
     (if length d mod 4 = 0 then
        (if 2 \<le> length d \<and> drop (length d - 2) d = ''=='' then take (length d - 2) d
         else if 1 \<le> length d \<and> last d = CHR ''='' then butlast d
         else d)
      else d)"

fun sextets :: "string \<Rightarrow> nat list option" where
  "sextets [] = Some []"
| "sextets (c # cs) =
     (case b64index c of
        None \<Rightarrow> None
      | Some v \<Rightarrow> map_option ((#) v) (sextets cs))"

fun b64bytes :: "nat list \<Rightarrow> nat list" where
  "b64bytes (a # b # c # d # rest) =
     [a * 4 + b div 16, (b mod 16) * 16 + c div 4, (c mod 4) * 64 + d] @ b64bytes rest"
| "b64bytes [a, b, c] = [a * 4 + b div 16, (b mod 16) * 16 + c div 4]"
| "b64bytes [a, b] = [a * 4 + b div 16]"
| "b64bytes [a] = []"
| "b64bytes [] = []"

definition atob :: "string \<Rightarrow> error + nat list" where
  "atob encoded =
     (let d = stripPadding (filter (\<lambda>c. \<not> asciiWhitespace c) encoded)
      in if length d mod 4 = 1 then Inl InvalidCharacterError
         else (case sextets d of
                 None \<Rightarrow> Inl InvalidCharacterError
               | Some v \<Rightarrow> Inr (b64bytes v)))"

subsection \<open>Encoding (AudioRecorder.tsx, encodePCMToBase64, lines 81-92)\<close>

text \<open>
  \<open>new Uint8Array(pcmData.buffer)\<close>: the bytes of the 16-bit samples in the platform's
  byte order, which is little-endian on every platform the code runs on.
\<close>

definition uint8View :: "16 word list \<Rightarrow> nat list" where
  "uint8View pcmData = concat (map (\<lambda>w. [unat w mod 256, unat w div 256]) pcmData)"

definition chunkSize :: nat where
  "chunkSize = 32768"

text \<open>\<open>String.fromCharCode(...chunk)\<close>: each argument is taken modulo 2^16.\<close>

definition fromCharCode :: "nat list \<Rightarrow> nat list" where
  "fromCharCode chunk = map (\<lambda>b. b mod 65536) chunk"

text \<open>The loop of lines 86-89, from index \<open>i\<close>, returning what it appends to \<open>binary\<close>.\<close>

function binaryFrom :: "nat \<Rightarrow> nat list \<Rightarrow> nat list" where
  "binaryFrom i uint8 =
     (if i < length uint8
      then fromCharCode (take chunkSize (drop i uint8)) @ binaryFrom (i + chunkSize) uint8
      else [])"
  by pat_completeness auto
termination
  by (relation "measure (\<lambda>(i, uint8). length uint8 - i)") (auto simp add: chunkSize_def)

declare binaryFrom.simps [simp del]

definition encodePCMToBase64 :: "16 word list \<Rightarrow> error + string" where
  "encodePCMToBase64 pcmData = btoa (binaryFrom 0 (uint8View pcmData))"

subsection \<open>Decoding (VoiceSocket.handleAudioPlayback, lines 290-305)\<close>

text \<open>\<open>view.getInt16(offset, true)\<close> on the two bytes at the offset, low byte first.\<close>

definition getInt16 :: "nat \<Rightarrow> nat \<Rightarrow> int" where
  "getInt16 b0 b1 = sint (word_of_nat (b0 + 256 * b1) :: 16 word)"

text \<open>
  The loop of lines 302-305 over the bytes from offset \<open>2 i\<close> on. It runs while
  \<open>i < byteStr.length / 2\<close>, that is while a byte is left; with a single byte left
  \<open>getInt16\<close> reads past the end of the buffer and throws a \<open>RangeError\<close>. (With an odd
  length \<open>sampleCount\<close> is fractional; \<open>new Float32Array(sampleCount)\<close> either truncates
  it or throws a \<open>RangeError\<close> itself, so the outcome is the same.)
\<close>

fun readSamples :: "nat list \<Rightarrow> error + rat list" where
  "readSamples [] = Inr []"
| "readSamples [b] = Inl RangeError"
| "readSamples (b0 # b1 # rest) =
     (case readSamples rest of
        Inl e \<Rightarrow> Inl e
      | Inr float32 \<Rightarrow> Inr (of_int (getInt16 b0 b1) / 32768 # float32))"

text \<open>Lines 290-296 and 298-305: \<open>atob\<close>, the copy into a \<open>Uint8Array\<close>, the sample loop.\<close>

definition decodeSamples :: "string \<Rightarrow> error + rat list" where
  "decodeSamples encoded =
     (case atob encoded of
        Inl e \<Rightarrow> Inl e
      | Inr byteStr \<Rightarrow> readSamples (map (\<lambda>c. c mod 256) byteStr))"

text \<open>Auxiliary functions for the proofs: the sextets of a byte string and its padding.\<close>

fun sextetsOf :: "nat list \<Rightarrow> nat list" where
  "sextetsOf [] = []"
| "sextetsOf [a] = [a div 4, (a mod 4) * 16]"
| "sextetsOf [a, b] = [a div 4, (a mod 4) * 16 + b div 16, (b mod 16) * 4]"
| "sextetsOf (a # b # c # rest) =
     [a div 4, (a mod 4) * 16 + b div 16, (b mod 16) * 4 + c div 64, c mod 64] @ sextetsOf rest"

fun padOf :: "nat list \<Rightarrow> nat" where
  "padOf [] = 0"
| "padOf [a] = 2"
| "padOf [a, b] = 1"
| "padOf (a # b # c # rest) = padOf rest"


section \<open>Streaming transport (class VoiceSocket)\<close>

text \<open>
  The object's fields and the part of the browser it acts on are one record. The
  \<open>WebSocket\<close> objects the transport has created live in a store, \<open>sockets\<close>, indexed by
  creation order; the field \<open>socket\<close> holds the index of the current one. What was passed
  to \<open>socket.send\<close> is recorded in \<open>transmitted\<close>, pending \<open>setTimeout\<close> delays in
  \<open>timers\<close>, calls of \<open>log\<close> in \<open>logged\<close> and calls of \<open>source.start\<close> in \<open>started\<close>.
  The observer callbacks registered by the recorder component do not call back into the
  transport and are left out.
\<close>

datatype readyState = CONNECTING | OPEN | CLOSING | CLOSED

record OutgoingAudioPayload =
  data :: string
  sample_rate :: nat
  channels :: nat

record AudioMessage =
  msg_data :: "string option"
  msg_sample_rate :: "rat option"

datatype LogLevel = Info | Success | Error

datatype LogMessage =
    WebSocketConnected
  | WebSocketDisconnected nat
  | AttemptingToReconnect nat nat
  | WebAudioNotSupported
  | AudioPlaybackError error

datatype AudioContextState = Suspended | Running | Closed

record VoiceSocket =
  socket :: "nat option"
  reconnectAttempts :: nat
  messageQueue :: "OutgoingAudioPayload list"
  isClosing :: bool
  playbackContext :: "AudioContextState option"
  playbackClock :: rat
  sockets :: "readyState list"
  transmitted :: "(nat \<times> OutgoingAudioPayload) list"
  timers :: "nat list"
  logged :: "(LogMessage \<times> LogLevel) list"
  started :: "(rat \<times> rat list \<times> rat) list"

text \<open>
  What the code asks of the browser: whether \<open>window\<close> exists, whether it has an
  \<open>AudioContext\<close> constructor, and the range of sample rates \<open>createBuffer\<close> accepts.
\<close>

record browser =
  hasWindow :: bool
  hasAudioContext :: bool
  minSampleRate :: rat
  maxSampleRate :: rat

definition supportsRate :: "browser \<Rightarrow> rat \<Rightarrow> bool" where
  "supportsRate br r \<longleftrightarrow> 0 < r \<and> minSampleRate br \<le> r \<and> r \<le> maxSampleRate br"

definition maxReconnectAttempts :: nat where
  "maxReconnectAttempts = 5"

definition reconnectDelay :: nat where
  "reconnectDelay = 1000"

text \<open>The field initialisers of lines 83-97.\<close>

definition newVoiceSocket :: VoiceSocket where
  "newVoiceSocket =
     \<lparr>socket = None, reconnectAttempts = 0, messageQueue = [], isClosing = False,
      playbackContext = None, playbackClock = 0, sockets = [], transmitted = [],
      timers = [], logged = [], started = []\<rparr>"

definition log_msg :: "LogMessage \<Rightarrow> LogLevel \<Rightarrow> VoiceSocket \<Rightarrow> VoiceSocket" where
  "log_msg message level vs = vs\<lparr>logged := logged vs @ [(message, level)]\<rparr>"

definition readyStateOf :: "VoiceSocket \<Rightarrow> nat \<Rightarrow> readyState" where
  "readyStateOf vs s = (if s < length (sockets vs) then sockets vs ! s else CLOSED)"

text \<open>
  Lines 134-215. The URL is a constant, well-formed \<open>wss\<close> URL, so the constructor does
  not throw; the handlers it installs are the functions \<open>onopen\<close> and \<open>onclose\<close> below.
\<close>

definition connect :: "browser \<Rightarrow> VoiceSocket \<Rightarrow> VoiceSocket" where
  "connect br vs =
     (if \<not> hasWindow br then vs
      else vs\<lparr>socket := Some (length (sockets vs)), sockets := sockets vs @ [CONNECTING]\<rparr>)"

text \<open>Lines 99-104.\<close>

definition init :: "browser \<Rightarrow> VoiceSocket \<Rightarrow> VoiceSocket" where
  "init br vs = connect br (vs\<lparr>isClosing := False, reconnectAttempts := 0, messageQueue := []\<rparr>)"

text \<open>Lines 217-226.\<close>

definition send :: "OutgoingAudioPayload \<Rightarrow> VoiceSocket \<Rightarrow> VoiceSocket" where
  "send payload vs =
     (case socket vs of
        None \<Rightarrow> vs\<lparr>messageQueue := messageQueue vs @ [payload]\<rparr>
      | Some s \<Rightarrow>
          if readyStateOf vs s = OPEN then vs\<lparr>transmitted := transmitted vs @ [(s, payload)]\<rparr>
          else vs\<lparr>messageQueue := messageQueue vs @ [payload]\<rparr>)"

text \<open>
  The loop of lines 233-238: shift the head of the queue and send it on socket \<open>s\<close>.
  A payload is an object, so the test \<open>if (payload)\<close> always succeeds.
\<close>

fun flushLoop ::
  "nat \<Rightarrow> OutgoingAudioPayload list \<Rightarrow> (nat \<times> OutgoingAudioPayload) list
    \<Rightarrow> (nat \<times> OutgoingAudioPayload) list" where
  "flushLoop s [] sent = sent"
| "flushLoop s (payload # queue) sent = flushLoop s queue (sent @ [(s, payload)])"

text \<open>Lines 228-239.\<close>

definition flushMessageQueue :: "VoiceSocket \<Rightarrow> VoiceSocket" where
  "flushMessageQueue vs =
     (case socket vs of
        None \<Rightarrow> vs
      | Some s \<Rightarrow>
          if readyStateOf vs s \<noteq> OPEN then vs
          else vs\<lparr>transmitted := flushLoop s (messageQueue vs) (transmitted vs),
                  messageQueue := []\<rparr>)"

text \<open>Lines 145-150, the handler; and the event: the socket becomes open, the handler runs.\<close>

definition onopen :: "VoiceSocket \<Rightarrow> VoiceSocket" where
  "onopen vs = flushMessageQueue ((log_msg WebSocketConnected Success vs)\<lparr>reconnectAttempts := 0\<rparr>)"

definition socketOpened :: "nat \<Rightarrow> VoiceSocket \<Rightarrow> VoiceSocket" where
  "socketOpened s vs = onopen (vs\<lparr>sockets := (sockets vs)[s := OPEN]\<rparr>)"

text \<open>
  Lines 327-342. The method is asynchronous; the model lets it complete at once.
\<close>

definition teardownPlayback :: "VoiceSocket \<Rightarrow> VoiceSocket" where
  "teardownPlayback vs =
     (case playbackContext vs of
        None \<Rightarrow> vs
      | Some c \<Rightarrow> vs\<lparr>playbackContext := None, playbackClock := 0\<rparr>)"

text \<open>
  Lines 152-177, the handler. The delay passed to \<open>setTimeout\<close> is computed when the
  timer is set, from the counter as it is then; the counter is incremented by the timer's
  callback.
\<close>

definition onclose :: "nat \<Rightarrow> VoiceSocket \<Rightarrow> VoiceSocket" where
  "onclose code vs =
     (let vs1 = teardownPlayback (log_msg (WebSocketDisconnected code) Info vs)
      in if \<not> isClosing vs1 \<and> code \<noteq> 1000 \<and> reconnectAttempts vs1 < maxReconnectAttempts
         then vs1\<lparr>timers := timers vs1 @ [reconnectDelay * reconnectAttempts vs1]\<rparr>
         else if isClosing vs1 then vs1\<lparr>isClosing := False\<rparr>
         else vs1)"

definition socketClosed :: "nat \<Rightarrow> nat \<Rightarrow> VoiceSocket \<Rightarrow> VoiceSocket" where
  "socketClosed s code vs = onclose code (vs\<lparr>sockets := (sockets vs)[s := CLOSED]\<rparr>)"

text \<open>Lines 166-173, the timer's callback; and the event: the oldest pending timer fires.\<close>

definition reconnectCallback :: "browser \<Rightarrow> VoiceSocket \<Rightarrow> VoiceSocket" where
  "reconnectCallback br vs =
     (let vs1 = vs\<lparr>reconnectAttempts := reconnectAttempts vs + 1\<rparr>
      in connect br
           (log_msg (AttemptingToReconnect (reconnectAttempts vs1) maxReconnectAttempts) Info vs1))"

definition timerFired :: "browser \<Rightarrow> VoiceSocket \<Rightarrow> VoiceSocket" where
  "timerFired br vs =
     (case timers vs of
        [] \<Rightarrow> vs
      | delay # rest \<Rightarrow> reconnectCallback br (vs\<lparr>timers := rest\<rparr>))"

text \<open>
  Lines 241-249, for a close code the platform accepts (the callers pass 1000): the current
  socket starts closing and the handle is dropped.
\<close>

definition close :: "VoiceSocket \<Rightarrow> VoiceSocket" where
  "close vs =
     (let vs1 = vs\<lparr>isClosing := True\<rparr>;
          vs2 = (case socket vs1 of
                   None \<Rightarrow> vs1
                 | Some s \<Rightarrow>
                     vs1\<lparr>sockets := (sockets vs1)
                            [s := (if readyStateOf vs1 s = CLOSED then CLOSED else CLOSING)],
                         socket := None\<rparr>)
      in (teardownPlayback vs2)\<lparr>messageQueue := []\<rparr>)"

text \<open>Lines 251-253.\<close>

definition isConnected :: "VoiceSocket \<Rightarrow> bool" where
  "isConnected vs =
     (case socket vs of None \<Rightarrow> False | Some s \<Rightarrow> readyStateOf vs s = OPEN)"

text \<open>Scenarios: a list of frames submitted one after the other.\<close>

fun sendAll :: "OutgoingAudioPayload list \<Rightarrow> VoiceSocket \<Rightarrow> VoiceSocket" where
  "sendAll [] vs = vs"
| "sendAll (payload # rest) vs = sendAll rest (send payload vs)"

text \<open>
  Scenarios: the current socket closes with the given code and then the pending timer, if
  any, fires; and this once for each code of a list.
\<close>

definition closeThenTimer :: "browser \<Rightarrow> nat \<Rightarrow> VoiceSocket \<Rightarrow> VoiceSocket" where
  "closeThenTimer br code vs =
     (case socket vs of
        None \<Rightarrow> vs
      | Some s \<Rightarrow> timerFired br (socketClosed s code vs))"

fun closures :: "browser \<Rightarrow> nat list \<Rightarrow> VoiceSocket \<Rightarrow> VoiceSocket" where
  "closures br [] vs = vs"
| "closures br (code # codes) vs = closures br codes (closeThenTimer br code vs)"


section \<open>Playback scheduler (VoiceSocket.handleAudioPlayback)\<close>

text \<open>
  Lines 255-276. The result says whether a context is returned. \<open>currentTime\<close> is the
  context's clock reading, given by the environment.
\<close>

definition ensurePlaybackContext :: "browser \<Rightarrow> rat \<Rightarrow> VoiceSocket \<Rightarrow> bool \<times> VoiceSocket" where
  "ensurePlaybackContext br currentTime vs =
     (if \<not> hasWindow br then (False, vs)
      else if playbackContext vs = None \<or> playbackContext vs = Some Closed then
        (if \<not> hasAudioContext br then (False, log_msg WebAudioNotSupported Error vs)
         else (True, vs\<lparr>playbackContext := Some Running, playbackClock := currentTime\<rparr>))
      else (True, vs))"

text \<open>
  Lines 307-320, in the arithmetic of the code: the clock, the clock reading \<open>now\<close> and
  the duration are doubles, and every sum and quotient is rounded to a double.
  \<open>createBuffer\<close> takes the sample rate as a single; it throws for an empty buffer and
  for a sample rate the platform does not support, and the buffer's duration is its
  length over its sample rate. \<open>start\<close> throws for a negative time.
\<close>

definition scheduleBuffer ::
  "browser \<Rightarrow> rat \<Rightarrow> rat list \<Rightarrow> rat \<Rightarrow> VoiceSocket \<Rightarrow> error + VoiceSocket" where
  "scheduleBuffer br now float32 sampleRate vs =
     (if length float32 = 0 \<or> \<not> supportsRate br (fround sampleRate) then Inl NotSupportedError
      else
        let duration = dbl (of_nat (length float32) / fround sampleRate);
            clock = (if playbackClock vs < dbl (now + dbl (5 / 100)) then dbl (now + dbl (1 / 10))
                     else playbackClock vs)
        in if clock < 0 then Inl RangeError
           else Inr (vs\<lparr>started := started vs @ [(clock, float32, sampleRate)],
                        playbackClock := dbl (clock + duration)\<rparr>))"

text \<open>Lines 278-325; \<open>now\<close> is the playback context's clock reading during the call.\<close>

definition handleAudioPlayback ::
  "browser \<Rightarrow> rat \<Rightarrow> AudioMessage \<Rightarrow> VoiceSocket \<Rightarrow> VoiceSocket" where
  "handleAudioPlayback br now payload vs =
     (case msg_data payload of
        None \<Rightarrow> vs
      | Some encoded \<Rightarrow>
          if encoded = [] then vs
          else
            (case ensurePlaybackContext br now vs of
               (False, vs1) \<Rightarrow> vs1
             | (True, vs1) \<Rightarrow>
                 (case (case decodeSamples encoded of
                          Inl e \<Rightarrow> Inl e
                        | Inr float32 \<Rightarrow>
                            scheduleBuffer br now float32
                              (case msg_sample_rate payload of None \<Rightarrow> 24000 | Some r \<Rightarrow> r)
                              vs1) of
                    Inl e \<Rightarrow> log_msg (AudioPlaybackError e) Error vs1
                  | Inr vs2 \<Rightarrow> vs2)))"


section \<open>Capture pipeline (component AudioRecorder)\<close>

text \<open>
  The refs of the component that chunk processing reads or writes. A delivered chunk is a
  blob with its size and with what \<open>decodeAudioData\<close> followed by \<open>getChannelData(0)\<close>
  makes of it; the awaits inside \<open>processAudioChunk\<close> are taken to complete at once.
\<close>

record Blob =
  blob_size :: nat
  decoded :: "error + rat list"

record AudioRecorder =
  isTransmittingRef :: bool
  recorderRef :: bool
  streamRef :: bool
  socketRef :: "VoiceSocket option"
  audioContextRef :: "AudioContextState option"
  chunksSentRef :: nat

text \<open>Lines 53-79.\<close>

definition ensureAudioContext :: "browser \<Rightarrow> AudioRecorder \<Rightarrow> bool \<times> AudioRecorder" where
  "ensureAudioContext br rec =
     (if \<not> hasWindow br then (False, rec)
      else if audioContextRef rec = None \<or> audioContextRef rec = Some Closed then
        (if \<not> hasAudioContext br then (False, rec)
         else (True, rec\<lparr>audioContextRef := Some Running\<rparr>))
      else (True, rec))"

text \<open>Lines 120-123 and 125-148.\<close>

definition stopTransmission :: "AudioRecorder \<Rightarrow> AudioRecorder" where
  "stopTransmission rec = rec\<lparr>isTransmittingRef := False, chunksSentRef := 0\<rparr>"

definition stopRecording :: "AudioRecorder \<Rightarrow> AudioRecorder" where
  "stopRecording rec = rec\<lparr>recorderRef := False, streamRef := False, audioContextRef := None\<rparr>"

text \<open>Lines 150-225. Every failure inside the \<open>try\<close> is caught and leaves the refs as they are.\<close>

definition processAudioChunk :: "browser \<Rightarrow> Blob \<Rightarrow> AudioRecorder \<Rightarrow> AudioRecorder" where
  "processAudioChunk br blob rec =
     (if \<not> isTransmittingRef rec
         \<or> \<not> (case socketRef rec of None \<Rightarrow> False | Some vs \<Rightarrow> isConnected vs)
         \<or> blob_size blob = 0
      then rec
      else
        (case ensureAudioContext br rec of
           (False, rec1) \<Rightarrow> rec1
         | (True, rec1) \<Rightarrow>
             (case decoded blob of
                Inl e \<Rightarrow> rec1
              | Inr channelData \<Rightarrow>
                  if length channelData = 0 then rec1
                  else
                    (case encodePCMToBase64 (conditionSamples channelData) of
                       Inl e \<Rightarrow> rec1
                     | Inr base64 \<Rightarrow>
                         rec1\<lparr>socketRef :=
                                 map_option
                                   (send \<lparr>data = base64, sample_rate = 16000, channels = 1\<rparr>)
                                   (socketRef rec1),
                               chunksSentRef := chunksSentRef rec1 + 1\<rparr>))))"


section \<open>Example data\<close>

text \<open>
  A browser that has a window and the Web Audio API, buffers of 3000 to 768000 samples per
  second; three outgoing frames; a payload holding one second of silence at 8000 samples per
  second; a captured chunk of two samples; and a recorder component that is recording, with
  its transmit flag and its transport as given.
\<close>

definition chrome :: browser where
  "chrome = \<lparr>hasWindow = True, hasAudioContext = True, minSampleRate = 3000, maxSampleRate = 768000\<rparr>"

definition frameA :: OutgoingAudioPayload where
  "frameA = \<lparr>data = ''AQA='', sample_rate = 16000, channels = 1\<rparr>"

definition frameB :: OutgoingAudioPayload where
  "frameB = \<lparr>data = ''AgA='', sample_rate = 16000, channels = 1\<rparr>"

definition frameC :: OutgoingAudioPayload where
  "frameC = \<lparr>data = ''AwA='', sample_rate = 16000, channels = 1\<rparr>"

definition silentSecond :: string where
  "silentSecond = b64groups (uint8View (replicate 8000 0))"

definition chunk :: Blob where
  "chunk = \<lparr>blob_size = 4, decoded = Inr [1 / 2, 1 / 2]\<rparr>"

definition recorderWith :: "bool \<Rightarrow> VoiceSocket \<Rightarrow> AudioRecorder" where
  "recorderWith transmitting vs =
     \<lparr>isTransmittingRef = transmitting, recorderRef = True, streamRef = True,
      socketRef = Some vs, audioContextRef = Some Running, chunksSentRef = 0\<rparr>"


section \<open>Properties of the rounding functions\<close>

lemma roundEven_floor: "\<lfloor>m\<rfloor> \<le> roundEven m \<and> roundEven m \<le> \<lfloor>m\<rfloor> + 1"
  by (simp add: roundEven_def Let_def)

lemma roundEven_of_int [simp]: "roundEven (of_int k) = k"
  by (simp add: roundEven_def Let_def)

lemma roundEven_mono: "m \<le> n \<Longrightarrow> roundEven m \<le> roundEven n"
proof -
  assume a: "m \<le> n"
  then have f: "\<lfloor>m\<rfloor> \<le> \<lfloor>n\<rfloor>" by (rule floor_mono)
  show ?thesis
  proof (cases "\<lfloor>m\<rfloor> = \<lfloor>n\<rfloor>")
    case True
    then have "m - of_int \<lfloor>m\<rfloor> \<le> n - of_int \<lfloor>n\<rfloor>" using a by simp
    then show ?thesis using True
      by (auto simp add: roundEven_def Let_def)
  next
    case False
    then have "\<lfloor>m\<rfloor> + 1 \<le> \<lfloor>n\<rfloor>" using f by simp
    then show ?thesis
      using roundEven_floor [of m] roundEven_floor [of n] by linarith
  qed
qed

lemma roundEven_near: "\<bar>of_int (roundEven m) - m\<bar> \<le> 1 / 2"
proof -
  have "of_int \<lfloor>m\<rfloor> \<le> m" "m < of_int \<lfloor>m\<rfloor> + 1" by linarith+
  then show ?thesis
    by (auto simp add: roundEven_def Let_def abs_le_iff)
qed

lemma roundEven_nonneg: "0 \<le> m \<Longrightarrow> 0 \<le> roundEven m"
  using roundEven_mono [of 0 m] roundEven_of_int [of 0] by simp

lemma roundEven_le_twice: "0 \<le> m \<Longrightarrow> of_int (roundEven m) \<le> 2 * m"
proof (cases "m < 1 / 2")
  case True
  assume "0 \<le> m"
  with True have "\<lfloor>m\<rfloor> = 0" by (simp add: floor_eq_iff)
  with True \<open>0 \<le> m\<close> show ?thesis by (simp add: roundEven_def Let_def)
next
  case False
  have "of_int (roundEven m) - m \<le> 1 / 2"
    using roundEven_near [of m] by (simp only: abs_le_iff)
  with False show ?thesis by linarith
qed

lemma halvings_bounds: "1 \<le> x \<Longrightarrow> 2 ^ halvings x \<le> x \<and> x < 2 ^ (halvings x + 1)"
proof (induction x rule: halvings.induct)
  case (1 x)
  show ?case
  proof (cases "2 \<le> x")
    case True
    then have "1 \<le> x / 2" by simp
    from "1.IH" [OF True this] True show ?thesis
      by (subst (1 2) halvings.simps) (simp add: field_simps)
  next
    case False
    with "1.prems" show ?thesis by (subst (1 2) halvings.simps) simp
  qed
qed

lemma doublings_bounds:
  "0 < x \<Longrightarrow> x < 1 \<Longrightarrow> 1 \<le> x * 2 ^ doublings x \<and> x * 2 ^ doublings x < 2 \<and> 0 < doublings x"
proof (induction x rule: doublings.induct)
  case (1 x)
  then have c: "0 < x \<and> x < 1" by simp
  show ?case
  proof (cases "2 * x < 1")
    case True
    then have "0 < 2 * x" using c by simp
    from "1.IH" [OF c this True] c show ?thesis
      by (subst (1 2 3) doublings.simps) (simp add: field_simps)
  next
    case False
    then have "doublings (2 * x) = 0" by (subst doublings.simps) simp
    with False c show ?thesis by (subst (1 2 3) doublings.simps) simp
  qed
qed

lemma pow2_less: "a < b \<Longrightarrow> (2::rat) powi a < 2 powi b"
  by (rule power_int_strict_increasing) simp_all

lemma pow2_le: "a \<le> b \<Longrightarrow> (2::rat) powi a \<le> 2 powi b"
  by (rule power_int_increasing) simp_all

lemma pow2_less_D: "(2::rat) powi a < 2 powi b \<Longrightarrow> a < b"
  using pow2_le [of b a] by (cases "a < b") simp_all

lemma pow2_pos: "0 < (2::rat) powi a"
  by simp

lemma expo_bounds: "0 < x \<Longrightarrow> 2 powi expo x \<le> x \<and> x < 2 powi (expo x + 1)"
proof (cases "1 \<le> x")
  case True
  with halvings_bounds [OF True] show ?thesis
    by (simp add: expo_def power_int_add_1)
next
  case False
  assume p: "0 < x"
  with False have l: "x < 1" by simp
  note d = doublings_bounds [OF p l]
  let ?n = "doublings x"
  have e: "expo x = - int ?n" using False by (simp add: expo_def)
  have m: "2 powi (- int ?n) = 1 / (2::rat) ^ ?n"
    by (simp add: power_int_minus field_simps)
  have "(2::rat) powi (- int ?n + 1) = 2 powi (- int ?n) * 2"
    by (rule power_int_add_1) simp
  then have m1: "2 powi (- int ?n + 1) = 2 / (2::rat) ^ ?n"
    by (simp only: m)
  have "1 / (2::rat) ^ ?n \<le> x" using d by (simp add: field_simps)
  moreover have "x < 2 / (2::rat) ^ ?n" using d by (simp add: field_simps)
  ultimately show ?thesis by (simp only: e m m1) 
qed

lemma expo_unique:
  assumes "0 < x" and "2 powi e \<le> x" and "x < 2 powi (e + 1)"
  shows "expo x = e"
proof -
  note b = expo_bounds [OF assms(1)]
  have "(2::rat) powi e < 2 powi (expo x + 1)" using assms(2) b by linarith
  then have 1: "e < expo x + 1" by (rule pow2_less_D)
  have "(2::rat) powi expo x < 2 powi (e + 1)" using assms(3) b by linarith
  then have 2: "expo x < e + 1" by (rule pow2_less_D)
  from 1 2 show ?thesis by simp
qed

lemma expo_mono: "0 < x \<Longrightarrow> x \<le> y \<Longrightarrow> expo x \<le> expo y"
proof -
  assume a: "0 < x" "x \<le> y"
  then have "0 < y" by simp
  note bx = expo_bounds [OF a(1)] and bz = expo_bounds [OF this]
  have "(2::rat) powi expo x < 2 powi (expo y + 1)" using bx bz a(2) by linarith
  then have "expo x < expo y + 1" by (rule pow2_less_D)
  then show ?thesis by simp
qed

lemma roundTo_zero [simp]: "roundTo p emin 0 = 0"
  by (simp add: roundTo_def)

lemma roundTo_minus: "roundTo p emin (- x) = - roundTo p emin x"
  by (simp add: roundTo_def Let_def)

lemma roundTo_pos:
  "0 < x \<Longrightarrow> roundTo p emin x =
     of_int (roundEven (x / 2 powi (max (expo x) emin - int p + 1)))
       * 2 powi (max (expo x) emin - int p + 1)"
  by (simp add: roundTo_def Let_def)

lemma roundTo_eval:
  assumes "0 < x" and "2 powi e \<le> x" and "x < 2 powi (e + 1)"
  shows "roundTo p emin x =
     of_int (roundEven (x / 2 powi (max e emin - int p + 1))) * 2 powi (max e emin - int p + 1)"
  using roundTo_pos [OF assms(1)] expo_unique [OF assms] by simp

lemma roundTo_nonneg: "0 \<le> x \<Longrightarrow> 0 \<le> roundTo p emin x"
proof (cases "x = 0")
  case True
  then show ?thesis by simp
next
  case False
  assume "0 \<le> x"
  with False have p: "0 < x" by simp
  have "0 \<le> x / 2 powi (max (expo x) emin - int p + 1)" using p by simp
  then have "0 \<le> roundEven (x / 2 powi (max (expo x) emin - int p + 1))"
    by (rule roundEven_nonneg)
  then show ?thesis unfolding roundTo_pos [OF p] by simp
qed

lemma roundTo_le_twice: "0 \<le> x \<Longrightarrow> roundTo p emin x \<le> 2 * x"
proof (cases "x = 0")
  case True
  then show ?thesis by simp
next
  case False
  assume "0 \<le> x"
  with False have p: "0 < x" by simp
  let ?q = "(2::rat) powi (max (expo x) emin - int p + 1)"
  have q: "0 < ?q" by simp
  have "0 \<le> x / ?q" using p by simp
  then have "of_int (roundEven (x / ?q)) \<le> 2 * (x / ?q)" by (rule roundEven_le_twice)
  then have "of_int (roundEven (x / ?q)) * ?q \<le> 2 * (x / ?q) * ?q"
    using q by (simp only: mult_le_cancel_right_pos)
  then show ?thesis unfolding roundTo_pos [OF p] using q by simp
qed

lemma roundTo_above_binade:
  assumes p: "0 < p" and x: "0 < x" and e: "emin \<le> expo x"
  shows "2 powi expo x \<le> roundTo p emin x"
proof -
  let ?k = "expo x - int p + 1"
  let ?q = "(2::rat) powi ?k"
  have m: "max (expo x) emin = expo x" using e by simp
  have k: "int p - 1 + ?k = expo x" by simp
  have "(2::rat) powi (int p - 1 + ?k) = 2 powi (int p - 1) * ?q"
    by (rule power_int_add) simp
  then have s: "(2::rat) powi (int p - 1) * ?q = 2 powi expo x" by (simp only: k)
  have i: "(2::rat) powi (int p - 1) = of_int (2 ^ (p - 1))"
    using p by (simp add: power_int_def nat_diff_distrib')
  have "2 powi expo x \<le> x" using expo_bounds [OF x] by simp
  then have "(2::rat) powi (int p - 1) * ?q \<le> x" by (simp only: s)
  then have "(2::rat) powi (int p - 1) \<le> x / ?q" by (simp add: field_simps)
  then have "roundEven (of_int (2 ^ (p - 1))) \<le> roundEven (x / ?q)"
    unfolding i by (rule roundEven_mono)
  then have "(of_int (2 ^ (p - 1)) :: rat) \<le> of_int (roundEven (x / ?q))"
    by (simp only: roundEven_of_int of_int_le_iff)
  then have "of_int (2 ^ (p - 1)) * ?q \<le> of_int (roundEven (x / ?q)) * ?q"
    by (simp only: mult_le_cancel_right_pos pow2_pos)
  then show ?thesis
    unfolding roundTo_pos [OF x] m by (simp only: s [symmetric] i)
qed

lemma roundTo_below_next:
  assumes x: "0 < x"
  shows "roundTo p emin x \<le> 2 powi (max (expo x) emin + 1)"
proof -
  let ?E = "max (expo x) emin"
  let ?k = "?E - int p + 1"
  let ?q = "(2::rat) powi ?k"
  have k: "int p + ?k = ?E + 1" by simp
  have "(2::rat) powi (int p + ?k) = 2 powi int p * ?q"
    by (rule power_int_add) simp
  then have s: "(2::rat) powi int p * ?q = 2 powi (?E + 1)" by (simp only: k)
  have i: "(2::rat) powi int p = of_int (2 ^ p)"
    by (simp add: power_int_def)
  have "x < 2 powi (expo x + 1)" using expo_bounds [OF x] by simp
  also have "\<dots> \<le> 2 powi (?E + 1)" by (rule pow2_le) simp
  finally have "x \<le> (2::rat) powi int p * ?q" by (simp only: s)
  then have "x / ?q \<le> (2::rat) powi int p" by (simp add: field_simps)
  then have "roundEven (x / ?q) \<le> roundEven (of_int (2 ^ p))"
    unfolding i by (rule roundEven_mono)
  then have "(of_int (roundEven (x / ?q)) :: rat) \<le> of_int (2 ^ p)"
    by (simp only: roundEven_of_int of_int_le_iff)
  then have "of_int (roundEven (x / ?q)) * ?q \<le> of_int (2 ^ p) * ?q"
    by (simp only: mult_le_cancel_right_pos pow2_pos)
  then show ?thesis
    unfolding roundTo_pos [OF x] by (simp only: s [symmetric] i)
qed

lemma roundTo_mono_pos:
  assumes p: "0 < p" and x: "0 < x" and l: "x \<le> y"
  shows "roundTo p emin x \<le> roundTo p emin y"
proof -
  have y: "0 < y" using x l by simp
  have e: "expo x \<le> expo y" using x l by (rule expo_mono)
  show ?thesis
  proof (cases "max (expo x) emin = max (expo y) emin")
    case True
    let ?q = "(2::rat) powi (max (expo y) emin - int p + 1)"
    have "x / ?q \<le> y / ?q" using l by (simp add: divide_right_mono)
    then have "roundEven (x / ?q) \<le> roundEven (y / ?q)" by (rule roundEven_mono)
    then have "(of_int (roundEven (x / ?q)) :: rat) * ?q \<le> of_int (roundEven (y / ?q)) * ?q"
      by (simp only: mult_le_cancel_right_pos pow2_pos of_int_le_iff)
    then show ?thesis
      unfolding roundTo_pos [OF x] roundTo_pos [OF y] True .
  next
    case False
    with e have n: "max (expo x) emin + 1 \<le> expo y" and m: "emin \<le> expo y" by simp_all
    have "roundTo p emin x \<le> 2 powi (max (expo x) emin + 1)"
      using x by (rule roundTo_below_next)
    also have "\<dots> \<le> 2 powi expo y" using n by (rule pow2_le)
    also have "\<dots> \<le> roundTo p emin y" using p y m by (rule roundTo_above_binade)
    finally show ?thesis .
  qed
qed

lemma roundTo_mono:
  assumes p: "0 < p" and l: "x \<le> y"
  shows "roundTo p emin x \<le> roundTo p emin y"
proof -
  consider "0 < x" | "x \<le> 0" "0 \<le> y" | "y < 0" by linarith
  then show ?thesis
  proof cases
    case 1
    with p l show ?thesis by (intro roundTo_mono_pos)
  next
    case 2
    have "0 \<le> roundTo p emin (- x)" using 2 by (intro roundTo_nonneg) simp
    then have "roundTo p emin x \<le> 0" by (simp add: roundTo_minus)
    also have "0 \<le> roundTo p emin y" using 2 by (intro roundTo_nonneg)
    finally show ?thesis .
  next
    case 3
    then have "0 < - y" "- y \<le> - x" using l by simp_all
    with p have "roundTo p emin (- y) \<le> roundTo p emin (- x)" by (intro roundTo_mono_pos)
    then show ?thesis by (simp add: roundTo_minus)
  qed
qed

lemma roundTo_ge_twice: "x \<le> 0 \<Longrightarrow> 2 * x \<le> roundTo p emin x"
  using roundTo_le_twice [of "- x" p emin] by (simp add: roundTo_minus)

lemma roundTo_nonpos: "x \<le> 0 \<Longrightarrow> roundTo p emin x \<le> 0"
  using roundTo_nonneg [of "- x" p emin] by (simp add: roundTo_minus)

lemma roundEven_eqI: "\<bar>m - of_int k\<bar> < 1 / 2 \<Longrightarrow> roundEven m = k"
proof -
  assume a: "\<bar>m - of_int k\<bar> < 1 / 2"
  show ?thesis
  proof (cases "of_int k \<le> m")
    case True
    with a have "\<lfloor>m\<rfloor> = k" by (simp add: floor_eq_iff abs_less_iff)
    with a True show ?thesis by (simp add: roundEven_def Let_def abs_less_iff)
  next
    case False
    with a have f: "\<lfloor>m\<rfloor> = k - 1" by (simp add: floor_eq_iff abs_less_iff)
    have "1 / 2 < m - of_int (k - 1)" using a False by (simp add: abs_less_iff)
    with f show ?thesis by (simp add: roundEven_def Let_def)
  qed
qed

lemma roundTo_eqI:
  assumes "0 < x" and "2 powi e \<le> x" and "x < 2 powi (e + 1)"
    and "\<bar>x / 2 powi (max e emin - int p + 1) - of_int k\<bar> < 1 / 2"
    and "y = of_int k * 2 powi (max e emin - int p + 1)"
  shows "roundTo p emin x = y"
  using roundTo_eval [OF assms(1,2,3), of p emin] roundEven_eqI [OF assms(4)] assms(5) by simp

lemma dbl_eqI:
  assumes "0 < x" and "- 1022 \<le> e" and "2 powi e \<le> x" and "x < 2 powi (e + 1)"
    and "\<bar>x / 2 powi (e - 52) - of_int k\<bar> < 1 / 2"
    and "y = of_int k * 2 powi (e - 52)"
  shows "dbl x = y"
proof -
  have m: "max e (- 1022) - int 53 + 1 = e - 52" using assms(2) by simp
  show ?thesis
    unfolding dbl_def
    by (rule roundTo_eqI [OF assms(1,3,4), of _ _ k]) (simp_all only: m assms(5,6))
qed

lemma fround_eqI:
  assumes "0 < x" and "- 126 \<le> e" and "2 powi e \<le> x" and "x < 2 powi (e + 1)"
    and "\<bar>x / 2 powi (e - 23) - of_int k\<bar> < 1 / 2"
    and "y = of_int k * 2 powi (e - 23)"
  shows "fround x = y"
proof -
  have m: "max e (- 126) - int 24 + 1 = e - 23" using assms(2) by simp
  show ?thesis
    unfolding fround_def
    by (rule roundTo_eqI [OF assms(1,3,4), of _ _ k]) (simp_all only: m assms(5,6))
qed

lemma dbl_zero [simp]: "dbl 0 = 0"
  by (simp add: dbl_def)

lemma fround_zero [simp]: "fround 0 = 0"
  by (simp add: fround_def)

lemma dbl_minus [simp]: "dbl (- x) = - dbl x"
  by (simp add: dbl_def roundTo_minus)

lemma fround_minus [simp]: "fround (- x) = - fround x"
  by (simp add: fround_def roundTo_minus)

lemma dbl_mono: "x \<le> y \<Longrightarrow> dbl x \<le> dbl y"
  unfolding dbl_def by (rule roundTo_mono) simp

lemma fround_mono: "x \<le> y \<Longrightarrow> fround x \<le> fround y"
  unfolding fround_def by (rule roundTo_mono) simp

lemma dbl_nonneg: "0 \<le> x \<Longrightarrow> 0 \<le> dbl x"
  unfolding dbl_def by (rule roundTo_nonneg)

lemma dbl_nonpos: "x \<le> 0 \<Longrightarrow> dbl x \<le> 0"
  unfolding dbl_def by (rule roundTo_nonpos)

lemma dbl_le_twice: "0 \<le> x \<Longrightarrow> dbl x \<le> 2 * x"
  unfolding dbl_def by (rule roundTo_le_twice)

lemma dbl_ge_twice: "x \<le> 0 \<Longrightarrow> 2 * x \<le> dbl x"
  unfolding dbl_def by (rule roundTo_ge_twice)

lemma roundTo_rel_lower:
  assumes p: "0 < p" and n: "2 powi emin \<le> x"
  shows "x - x * 2 powi (- int p) \<le> roundTo p emin x"
proof -
  have x: "0 < x" using n pow2_pos [of emin] by linarith
  note b = expo_bounds [OF x]
  have "(2::rat) powi emin < 2 powi (expo x + 1)" using n b by linarith
  then have "emin < expo x + 1" by (rule pow2_less_D)
  then have m: "max (expo x) emin = expo x" by simp
  define q :: rat where "q = 2 powi (expo x - int p + 1)"
  define r :: rat where "r = of_int (roundEven (x / q))"
  have q: "0 < q" by (simp add: q_def)
  have "- (1 / 2) \<le> r - x / q"
    using roundEven_near [of "x / q"] unfolding r_def by (simp only: abs_le_iff) linarith
  then have "x / q - 1 / 2 \<le> r" by linarith
  then have "(x / q - 1 / 2) * q \<le> r * q"
    using q by (simp only: mult_le_cancel_right_pos)
  moreover have "(x / q - 1 / 2) * q = x - q / 2"
    using q by (simp add: field_simps)
  moreover have "roundTo p emin x = r * q"
    unfolding roundTo_pos [OF x] m r_def q_def ..
  ultimately have 1: "x - q / 2 \<le> roundTo p emin x" by simp
  have k: "expo x + (- int p) + 1 = expo x - int p + 1" by simp
  have "(2::rat) powi (expo x + (- int p) + 1) = 2 powi (expo x + (- int p)) * 2"
    by (rule power_int_add_1) simp
  then have "q = 2 powi (expo x + (- int p)) * 2"
    unfolding q_def by (simp only: k)
  moreover have "(2::rat) powi (expo x + (- int p)) = 2 powi expo x * 2 powi (- int p)"
    by (rule power_int_add) simp
  ultimately have "q / 2 = 2 powi expo x * 2 powi (- int p)"
    by simp
  also have "\<dots> \<le> x * 2 powi (- int p)"
    using b by (simp only: mult_le_cancel_right_pos pow2_pos) 
  finally show ?thesis using 1 by linarith
qed

lemma dbl_rel_lower: "1 / 32 \<le> x \<Longrightarrow> x - x / 2 ^ 53 \<le> dbl x"
proof -
  assume a: "1 / 32 \<le> x"
  have "(2::rat) powi (- 1022) \<le> 2 powi (- 5)" by (rule pow2_le) simp
  also have "\<dots> = 1 / 32" by (simp add: power_int_minus)
  finally have n: "(2::rat) powi (- 1022) \<le> x" using a by linarith
  have "x - x * 2 powi (- int 53) \<le> roundTo 53 (- 1022) x"
    using n by (intro roundTo_rel_lower) simp
  moreover have "(2::rat) powi (- int 53) = 1 / 2 ^ 53"
    by (simp add: power_int_minus field_simps)
  ultimately show ?thesis by (simp add: dbl_def)
qed



section \<open>Properties of the signal conditioner\<close>

lemma fround_threshold: "fround (3 / 200) = 16106127 / 1073741824"
  by (rule fround_eqI [where e = "- 7" and k = 16106127]) (simp_all add: power_int_minus)

text \<open>
  The threshold as a double, the single nearest to 0.015, which lies below the
  threshold, and the fact that this single is a double.
\<close>

lemma threshold_value: "dbl (3 / 200) = 1080863910568919 / 72057594037927936"
  by (rule dbl_eqI [where e = "- 7" and k = 8646911284551352]) (simp_all add: power_int_minus)

lemma dbl_below_gate: "dbl (16106127 / 1073741824) = 16106127 / 1073741824"
  by (rule dbl_eqI [where e = "- 7" and k = 8646911091277824]) (simp_all add: power_int_minus)

lemma smoothingFactor_bounds: "0 \<le> smoothingFactor \<and> smoothingFactor \<le> 24 / 100"
  using dbl_nonneg [of "12 / 100"] dbl_le_twice [of "12 / 100"]
  by (simp add: smoothingFactor_def)

lemma smooth_correction_up:
  assumes "0 \<le> t"
  shows "0 \<le> dbl (smoothingFactor * dbl t) \<and> dbl (smoothingFactor * dbl t) \<le> t"
proof -
  note a = smoothingFactor_bounds
  have d: "0 \<le> dbl t" "dbl t \<le> 2 * t"
    using assms by (simp_all add: dbl_nonneg dbl_le_twice)
  have z0: "0 \<le> smoothingFactor * dbl t" using a d by simp
  have "smoothingFactor * dbl t \<le> (24 / 100) * (2 * t)"
    using a d assms by (intro mult_mono) simp_all
  then have z1: "smoothingFactor * dbl t \<le> (48 / 100) * t" by simp
  have "dbl (smoothingFactor * dbl t) \<le> 2 * (smoothingFactor * dbl t)"
    using z0 by (rule dbl_le_twice)
  with z1 assms have "dbl (smoothingFactor * dbl t) \<le> t" by linarith
  with z0 show ?thesis by (simp add: dbl_nonneg)
qed

lemma smooth_correction_down:
  assumes "t \<le> 0"
  shows "t \<le> dbl (smoothingFactor * dbl t) \<and> dbl (smoothingFactor * dbl t) \<le> 0"
proof -
  have "0 \<le> - t" using assms by simp
  from smooth_correction_up [OF this] show ?thesis by simp
qed

lemma smooth_step_bounded:
  assumes b: "dbl b = b" and p: "\<bar>prev\<bar> \<le> b" and r: "\<bar>raw\<bar> \<le> b"
  shows "\<bar>dbl (prev + dbl (smoothingFactor * dbl (raw - prev)))\<bar> \<le> b"
proof -
  let ?q = "dbl (smoothingFactor * dbl (raw - prev))"
  have pr: "- b \<le> prev" "prev \<le> b" "- b \<le> raw" "raw \<le> b"
    using p r by (simp_all add: abs_le_iff)
  have "- b \<le> prev + ?q \<and> prev + ?q \<le> b"
  proof (cases "prev \<le> raw")
    case True
    then have "0 \<le> raw - prev" by simp
    from smooth_correction_up [OF this] pr show ?thesis by linarith
  next
    case False
    then have "raw - prev \<le> 0" by simp
    from smooth_correction_down [OF this] pr show ?thesis by linarith
  qed
  then have "dbl (- b) \<le> dbl (prev + ?q)" "dbl (prev + ?q) \<le> dbl b"
    by (simp_all only: dbl_mono)
  then show ?thesis by (simp add: b abs_le_iff)
qed

lemma fround_below_gate:
  assumes "\<bar>x\<bar> < 15 / 1000"
  shows "\<bar>fround x\<bar> \<le> 16106127 / 1073741824"
proof -
  have "x \<le> 3 / 200" "- (3 / 200) \<le> x" using assms by (simp_all add: abs_less_iff)
  then have "fround x \<le> fround (3 / 200)" "fround (- (3 / 200)) \<le> fround x"
    by (simp_all only: fround_mono)
  then show ?thesis by (simp add: fround_threshold abs_le_iff)
qed

lemma quantize_zero: "quantize 0 = 0"
  by (simp add: quantize_def toInt16_def trunc_def)

lemma denoise_below_gate:
  assumes "\<bar>prev\<bar> \<le> 16106127 / 1073741824" and "\<forall>x\<in>set raw. \<bar>x\<bar> < 15 / 1000"
  shows "denoise prev raw = replicate (length raw) 0"
  using assms
proof (induction raw arbitrary: prev)
  case Nil
  show ?case by simp
next
  case (Cons x rest)
  let ?s = "dbl (prev + dbl (smoothingFactor * dbl (fround x - prev)))"
  have "\<bar>fround x\<bar> \<le> 16106127 / 1073741824"
    using Cons.prems by (intro fround_below_gate) simp
  with Cons.prems(1) have s: "\<bar>?s\<bar> \<le> 16106127 / 1073741824"
    by (intro smooth_step_bounded dbl_below_gate)
  then have g: "\<bar>?s\<bar> < noiseGateThreshold"
    by (simp add: noiseGateThreshold_def threshold_value)
  have "denoise ?s rest = replicate (length rest) 0"
    using Cons.prems s by (intro Cons.IH) simp_all
  with g show ?case
    by (simp add: Let_def)
qed


text \<open>
  C7. If every input sample has magnitude below the noise-gate threshold 0.015, the
  conditioner's output is the all-zero sequence of the same length.
\<close>

theorem conditioner_silence:
  assumes "\<forall>x\<in>set raw. \<bar>x\<bar> < 15 / 1000"
  shows "conditionSamples raw = replicate (length raw) 0"
proof -
  have "\<bar>0::rat\<bar> \<le> 16106127 / 1073741824" by simp
  then have "denoise 0 raw = replicate (length raw) 0"
    using assms by (rule denoise_below_gate)
  then show ?thesis
    by (simp add: conditionSamples_def quantize_zero)
qed

theorem conditioner_silence_witness:
  "\<bar>1 / 100\<bar> < (15 / 1000 :: rat) \<and> \<bar>- (1 / 100)\<bar> < (15 / 1000 :: rat)
   \<and> \<bar>14 / 1000\<bar> < (15 / 1000 :: rat)
   \<and> conditionSamples [1 / 100, - (1 / 100), 14 / 1000] = [0, 0, 0]"
proof -
  have h: "\<forall>x\<in>set [1 / 100, - (1 / 100), 14 / 1000 :: rat]. \<bar>x\<bar> < 15 / 1000"
    by simp
  from conditioner_silence [OF h] show ?thesis
    by (simp add: numeral_3_eq_3)
qed

subsection \<open>Quantisation\<close>

lemma length_denoise: "length (denoise prev raw) = length raw"
  by (induction raw arbitrary: prev) (simp_all add: Let_def)

lemma smoothAt_Cons:
  "smoothAt p (x # xs) (Suc i)
     = smoothAt (dbl (p + dbl (smoothingFactor * dbl (fround x - p)))) xs i"
  by (induction i) simp_all

lemma denoise_nth: "i < length raw \<Longrightarrow> denoise p raw ! i = fround (gate (smoothAt p raw i))"
proof (induction raw arbitrary: p i)
  case Nil
  then show ?case by simp
next
  case (Cons x xs)
  show ?case
  proof (cases i)
    case 0
    then show ?thesis by (simp add: Let_def gate_def)
  next
    case (Suc j)
    with Cons.prems have "j < length xs" by simp
    from Cons.IH [OF this] Suc show ?thesis
      by (simp add: Let_def smoothAt_Cons del: smoothAt.simps)
  qed
qed

lemma trunc_of_int: "trunc (of_int k) = k"
  by (simp add: trunc_def)

lemma trunc_mono: "x \<le> y \<Longrightarrow> trunc x \<le> trunc y"
  unfolding trunc_def
  by (auto intro: floor_mono ceiling_mono)
    (meson ceiling_le_zero dual_order.trans le_floor_iff linear of_int_0 zero_le_floor)

lemma trunc_clamp: "trunc (max (- 32768) (min 32767 x)) = clamp16 (trunc x)"
proof -
  have a: "trunc (- 32768) = - 32768" using trunc_of_int [of "- 32768"] by simp
  have b: "trunc 32767 = 32767" using trunc_of_int [of 32767] by simp
  show ?thesis
    unfolding clamp16_def
    using trunc_mono [of x "- 32768"] trunc_mono [of "- 32768" x]
      trunc_mono [of x 32767] trunc_mono [of 32767 x]
    by (auto simp add: a b max_def min_def)
qed

lemma sint_quantize: "sint (quantize s) = clamp16 (trunc (dbl (s * 32768)))"
proof -
  let ?k = "clamp16 (trunc (dbl (s * 32768)))"
  have r: "- 32768 \<le> ?k" "?k \<le> 32767" by (simp_all add: clamp16_def)
  have "sint (word_of_int ?k :: 16 word) = ?k"
    using r by (simp add: sint_sbintrunc' signed_take_bit_int_eq_self)
  then show ?thesis
    by (simp add: quantize_def toInt16_def trunc_clamp)
qed


text \<open>
  C2 (as amended). At every index the quantised output is the gated smoothed sample,
  held in single precision, scaled by 32768, truncated toward zero (not rounded to
  nearest) and clamped to [-32768, 32767], where the smoothed sequence is computed in
  double precision; the output has the length of the input and no value wraps.
\<close>

theorem conditioner_quantization:
  assumes "i < length raw"
  shows "length (conditionSamples raw) = length raw
    \<and> sint (conditionSamples raw ! i)
        = clamp16 (trunc (dbl (fround (gate (smoothAt 0 raw i)) * 32768)))
    \<and> - 32768 \<le> sint (conditionSamples raw ! i) \<and> sint (conditionSamples raw ! i) \<le> 32767"
proof -
  have len: "length (conditionSamples raw) = length raw"
    by (simp add: conditionSamples_def length_denoise)
  have "conditionSamples raw ! i = quantize (denoise 0 raw ! i)"
    using assms by (simp add: conditionSamples_def length_denoise)
  then have v: "sint (conditionSamples raw ! i)
      = clamp16 (trunc (dbl (fround (gate (smoothAt 0 raw i)) * 32768)))"
    using assms by (simp add: denoise_nth sint_quantize)
  have "- 32768 \<le> clamp16 k \<and> clamp16 k \<le> 32767" for k
    by (simp add: clamp16_def)
  with len v show ?thesis by simp
qed

lemma floor_rat_numeral:
  "\<lfloor>numeral a / numeral b :: rat\<rfloor> = numeral a div numeral b"
  using floor_divide_of_int_eq [of "numeral a" "numeral b", where ?'a = rat] by simp

text \<open>
  The values of the rounding functions at the numbers that occur when the conditioner
  runs on [1, 1, 1] and on [0.1], each checked from its exponent and rounded significand.
\<close>

lemma ev_1: "dbl (3 / 25) = 1080863910568919 / 9007199254740992"
  by (rule dbl_eqI [where e = "- 4" and k = 8646911284551352]) (simp_all add: power_int_minus)

lemma ev_2: "dbl (3 / 200) = 1080863910568919 / 72057594037927936"
  by (rule dbl_eqI [where e = "- 7" and k = 8646911284551352]) (simp_all add: power_int_minus)

lemma ev_3: "fround 1 = 1"
  by (rule fround_eqI [where e = "0" and k = 8388608]) (simp_all add: power_int_minus)

lemma ev_4: "dbl 1 = 1"
  by (rule dbl_eqI [where e = "0" and k = 4503599627370496]) (simp_all add: power_int_minus)

lemma ev_5: "dbl (1080863910568919 / 9007199254740992) = 1080863910568919 / 9007199254740992"
  by (rule dbl_eqI [where e = "- 4" and k = 8646911284551352]) (simp_all add: power_int_minus)

lemma ev_6: "fround (1080863910568919 / 9007199254740992) = 16106127 / 134217728"
  by (rule fround_eqI [where e = "- 4" and k = 16106127]) (simp_all add: power_int_minus)

lemma ev_7: "dbl (16106127 / 4096) = 16106127 / 4096"
  by (rule dbl_eqI [where e = "11" and k = 8646911091277824]) (simp_all add: power_int_minus)

lemma ev_8: "dbl (7926335344172073 / 9007199254740992) = 7926335344172073 / 9007199254740992"
  by (rule dbl_eqI [where e = "- 1" and k = 7926335344172073]) (simp_all add: power_int_minus)

lemma ev_9: "dbl (8567289816582465313256461599087 / 81129638414606681695789005144064) = 3804640965202595 / 36028797018963968"
  by (rule dbl_eqI [where e = "- 4" and k = 7609281930405190]) (simp_all add: power_int_minus)

lemma ev_10: "dbl (8128096607478271 / 36028797018963968) = 8128096607478271 / 36028797018963968"
  by (rule dbl_eqI [where e = "- 3" and k = 8128096607478271]) (simp_all add: power_int_minus)

lemma ev_11: "fround (8128096607478271 / 36028797018963968) = 946235 / 4194304"
  by (rule fround_eqI [where e = "- 3" and k = 15139760]) (simp_all add: power_int_minus)

lemma ev_12: "dbl (946235 / 128) = 946235 / 128"
  by (rule dbl_eqI [where e = "12" and k = 8128096758661120]) (simp_all add: power_int_minus)

lemma ev_13: "dbl (27900700411485697 / 36028797018963968) = 54493555491183 / 70368744177664"
  by (rule dbl_eqI [where e = "- 1" and k = 6975175102871424]) (simp_all add: power_int_minus)

lemma ev_14: "dbl (58900117489004447002018341177 / 633825300114114700748351602688) = 6696168098756567 / 72057594037927936"
  by (rule dbl_eqI [where e = "- 4" and k = 6696168098756567]) (simp_all add: power_int_minus)

lemma ev_15: "dbl (22952361313713109 / 72057594037927936) = 5738090328428277 / 18014398509481984"
  by (rule dbl_eqI [where e = "- 2" and k = 5738090328428277]) (simp_all add: power_int_minus)

lemma ev_16: "fround (5738090328428277 / 18014398509481984) = 5344013 / 16777216"
  by (rule fround_eqI [where e = "- 2" and k = 10688026]) (simp_all add: power_int_minus)

lemma ev_17: "dbl (5344013 / 512) = 5344013 / 512"
  by (rule dbl_eqI [where e = "13" and k = 5738090266099712]) (simp_all add: power_int_minus)

lemma ev_18: "fround (1 / 10) = 13421773 / 134217728"
  by (rule fround_eqI [where e = "- 4" and k = 13421773]) (simp_all add: power_int_minus)

lemma ev_19: "dbl (13421773 / 134217728) = 13421773 / 134217728"
  by (rule dbl_eqI [where e = "- 4" and k = 7205759511166976]) (simp_all add: power_int_minus)

lemma ev_20: "dbl (14507110051548331673387 / 1208925819614629174706176) = 6917529130720297 / 576460752303423488"
  by (rule dbl_eqI [where e = "- 7" and k = 6917529130720297]) (simp_all add: power_int_minus)

lemma ev_21: "dbl (6917529130720297 / 576460752303423488) = 6917529130720297 / 576460752303423488"
  by (rule dbl_eqI [where e = "- 7" and k = 6917529130720297]) (simp_all add: power_int_minus)

lemmas ev = ev_1 ev_2 ev_3 ev_4 ev_5 ev_6 ev_7 ev_8 ev_9 ev_10 ev_11 ev_12 ev_13 ev_14 ev_15 ev_16 ev_17 ev_18 ev_19 ev_20 ev_21

lemma smoothAt_ones: "smoothAt 0 [1, 1, 1] 2 = 5738090328428277 / 18014398509481984"
  by (simp add: numeral_2_eq_2 smoothingFactor_def ev)

lemma smoothAt_tenth: "smoothAt 0 [1 / 10] 0 = 6917529130720297 / 576460752303423488"
  by (simp add: smoothingFactor_def ev)

lemma quantized_ones: "clamp16 (trunc (dbl (fround (gate (5738090328428277 / 18014398509481984)) * 32768))) = 10437"
  by (simp add: gate_def noiseGateThreshold_def ev clamp16_def trunc_def floor_rat_numeral)

lemma quantized_tenth: "clamp16 (trunc (dbl (fround (gate (6917529130720297 / 576460752303423488)) * 32768))) = 0"
  by (simp add: gate_def noiseGateThreshold_def ev clamp16_def trunc_def floor_rat_numeral)

theorem conditioner_quantization_witness:
  "(2::nat) < length [1, 1, 1 :: rat]
   \<and> length (conditionSamples [1, 1, 1]) = 3
   \<and> sint (conditionSamples [1, 1, 1] ! 2) = 10437"
proof -
  have h: "(2::nat) < length [1, 1, 1 :: rat]" by simp
  have "clamp16 (trunc (dbl (fround (gate (smoothAt 0 [1, 1, 1] 2)) * 32768))) = 10437"
    by (simp only: smoothAt_ones quantized_ones)
  with conditioner_quantization [OF h] show ?thesis by simp
qed

text \<open>
  C2 as stated fails. On the input [1, 1, 1] the third smoothed sample is 0.318528 (up
  to rounding), and 0.318528 * 32768 = 10437.5...: the code stores 10437 where rounding to
  nearest gives 10438. On the input [0.1] the smoothed sample 0.012 is below the gate, so
  the code stores 0 where the formula over the smoothed sequence gives 393.
\<close>

theorem quantization_round_counterexample:
  "sint (conditionSamples [1, 1, 1] ! 2) = 10437
   \<and> clamp16 (round (smoothAt 0 [1, 1, 1] 2 * 32768)) = 10438
   \<and> sint (conditionSamples [1 / 10] ! 0) = 0
   \<and> clamp16 (round (smoothAt 0 [1 / 10] 0 * 32768)) = 393"
proof -
  have i: "(2::nat) < length [1, 1, 1 :: rat]" "(0::nat) < length [1 / 10 :: rat]" by simp_all
  have a: "sint (conditionSamples [1, 1, 1] ! 2) = 10437"
    using i(1) by (simp only: conditionSamples_def length_denoise nth_map denoise_nth
        sint_quantize smoothAt_ones quantized_ones)
  have b: "clamp16 (round (smoothAt 0 [1, 1, 1] 2 * 32768)) = 10438"
    unfolding smoothAt_ones by (simp add: clamp16_def round_def floor_rat_numeral)
  have c: "sint (conditionSamples [1 / 10] ! 0) = 0"
    using i(2) by (simp only: conditionSamples_def length_denoise nth_map denoise_nth
        sint_quantize smoothAt_tenth quantized_tenth)
  have d: "clamp16 (round (smoothAt 0 [1 / 10] 0 * 32768)) = 393"
    unfolding smoothAt_tenth by (simp add: clamp16_def round_def floor_rat_numeral)
  from a b c d show ?thesis by simp
qed


section \<open>Properties of the frame codec\<close>

lemma b64_table: "list_all (\<lambda>n. b64index (b64char n) = Some n) [0..<64]"
  by code_simp

lemma b64index_b64char: "n < 64 \<Longrightarrow> b64index (b64char n) = Some n"
  using b64_table by (simp add: list_all_iff)

lemma b64_plain_table:
  "list_all (\<lambda>n. b64char n \<noteq> CHR ''='' \<and> \<not> asciiWhitespace (b64char n)) [0..<64]"
  by code_simp

lemma b64char_plain: "n < 64 \<Longrightarrow> b64char n \<noteq> CHR ''='' \<and> \<not> asciiWhitespace (b64char n)"
  using b64_plain_table by (simp add: list_all_iff)

lemma b64groups_split:
  "b64groups bs = map b64char (sextetsOf bs) @ replicate (padOf bs) CHR ''=''"
  by (induction bs rule: b64groups.induct) (simp_all add: numeral_2_eq_2)

lemma sextet0_bound: "a < 256 \<Longrightarrow> a div 4 < (64::nat)"
  by simp

lemma sextet1_bound: "b < 256 \<Longrightarrow>  (a mod 4) * 16 + b div 16 < (64::nat)"
proof -
  assume "b < 256"
  then have "b div 16 < 16" by simp
  moreover have "a mod 4 < 4" by simp
  ultimately show ?thesis by linarith
qed

lemma sextet2_bound: "c < 256 \<Longrightarrow> (b mod 16) * 4 + c div 64 < (64::nat)"
proof -
  assume "c < 256"
  then have "c div 64 < 4" by simp
  moreover have "b mod 16 < 16" by simp
  ultimately show ?thesis by linarith
qed

lemma sextet3_bound: "c mod 64 < (64::nat)"
  by simp

lemma byte0_back: "a div 4 * 4 + ((a mod 4) * 16 + b div 16) div 16 = (a::nat)" if "b < 256"
proof -
  have "b div 16 < 16" using that by simp
  then have "((a mod 4) * 16 + b div 16) div 16 = a mod 4"
    by simp
  then show ?thesis by simp
qed

lemma byte1_back: "(((a mod 4) * 16 + b div 16) mod 16) * 16 + ((b mod 16) * 4 + c div 64) div 4 = (b::nat)"
  if "b < 256" "c < 256"
proof -
  have "b div 16 < 16" using that by simp
  then have x: "((a mod 4) * 16 + b div 16) mod 16 = b div 16" by simp
  have "c div 64 < 4" using that by simp
  then have y: "((b mod 16) * 4 + c div 64) div 4 = b mod 16" by simp
  show ?thesis unfolding x y by simp
qed

lemma byte2_back: "(((b mod 16) * 4 + c div 64) mod 4) * 64 + c mod 64 = (c::nat)" if "c < 256"
proof -
  have "c div 64 < 4" using that by simp
  then have x: "((b mod 16) * 4 + c div 64) mod 4 = c div 64" by simp
  show ?thesis unfolding x by simp
qed

lemma byte0_back_single: "a div 4 * 4 + a mod 4 * 16 div 16 = (a::nat)"
  by simp

lemma byte1_back_pair: "(((a mod 4) * 16 + b div 16) mod 16) * 16 + ((b mod 16) * 4) div 4 = (b::nat)" if "b < 256"
proof -
  have "b div 16 < 16" using that by simp
  then have x: "((a mod 4) * 16 + b div 16) mod 16 = b div 16" by simp
  show ?thesis unfolding x by simp
qed

lemma sextetsOf_bound: "\<forall>b\<in>set bs. b < 256 \<Longrightarrow> \<forall>v\<in>set (sextetsOf bs). v < 64"
proof (induction bs rule: sextetsOf.induct)
  case 1
  show ?case by simp
next
  case (2 a)
  then show ?case using sextet0_bound [of a] by simp
next
  case (3 a b)
  then show ?case
    using sextet0_bound [of a] sextet1_bound [of b a] by simp
next
  case (4 a b c rest)
  then have "\<forall>v\<in>set (sextetsOf rest). v < 64" by simp
  moreover have "a div 4 < 64" "(a mod 4) * 16 + b div 16 < 64"
    "(b mod 16) * 4 + c div 64 < 64" "c mod 64 < 64"
    using "4.prems" by (simp_all add: sextet0_bound sextet1_bound sextet2_bound)
  ultimately show ?case by simp
qed

lemma length_sextetsOf: "(length (sextetsOf bs) + padOf bs) mod 4 = 0 \<and> padOf bs \<le> 2
    \<and> (padOf bs > 0 \<longrightarrow> sextetsOf bs \<noteq> [])"
  by (induction bs rule: sextetsOf.induct) simp_all

lemma sextets_map: "\<forall>v\<in>set vs. v < 64 \<Longrightarrow> sextets (map b64char vs) = Some vs"
  by (induction vs) (simp_all add: b64index_b64char)

lemma b64bytes_sextetsOf: "\<forall>b\<in>set bs. b < 256 \<Longrightarrow> b64bytes (sextetsOf bs) = bs"
proof (induction bs rule: sextetsOf.induct)
  case 1
  show ?case by simp
next
  case (2 a)
  show ?case using byte0_back_single [of a] by simp
next
  case (3 a b)
  then have "b < 256" by simp
  then show ?case
    using byte0_back [of b a] byte1_back_pair [of b a] by simp
next
  case (4 a b c rest)
  then have "b64bytes (sextetsOf rest) = rest" by simp
  moreover have "a div 4 * 4 + ((a mod 4) * 16 + b div 16) div 16 = a"
    "(((a mod 4) * 16 + b div 16) mod 16) * 16 + ((b mod 16) * 4 + c div 64) div 4 = b"
    "(((b mod 16) * 4 + c div 64) mod 4) * 64 + c mod 64 = c"
    using "4.prems" by (simp_all only: byte0_back byte1_back byte2_back list.set ball_simps)
  ultimately show ?case by simp
qed

lemma stripPadding_plain:
  assumes "\<forall>c\<in>set u. c \<noteq> CHR ''=''" and "k \<le> 2" and "(length u + k) mod 4 = 0"
    and "k > 0 \<longrightarrow> u \<noteq> []"
  shows "stripPadding (u @ replicate k CHR ''='') = u"
proof -
  consider "k = 0" | "k = 1" | "k = 2" using assms(2) by linarith
  then show ?thesis
  proof cases
    case 1
    have "1 \<le> length u \<Longrightarrow> last u \<noteq> CHR ''=''"
      using assms(1) last_in_set [of u] by (cases u) auto
    moreover have "2 \<le> length u \<Longrightarrow> drop (length u - 2) u \<noteq> ''==''"
    proof
      assume a: "2 \<le> length u" and b: "drop (length u - 2) u = ''==''"
      then have "CHR ''='' \<in> set (drop (length u - 2) u)" by simp
      then have "CHR ''='' \<in> set u" by (rule in_set_dropD)
      then show False using assms(1) by blast
    qed
    ultimately show ?thesis using 1 assms(3)
      by (auto simp add: stripPadding_def)
  next
    case 2
    have ne: "u \<noteq> []" using 2 assms(4) by simp
    then have l: "last u \<noteq> CHR ''=''" using assms(1) last_in_set by blast
    have "drop (length u - Suc 0) u = [last u]"
      using ne by (metis One_nat_def append_butlast_last_id append_eq_conv_conj length_butlast)
    then have "drop (length (u @ ''='') - 2) (u @ ''='') \<noteq> ''==''"
      using ne l by (simp add: Suc_diff_le Suc_leI)
    then show ?thesis using 2 assms(3) 
      by (simp add: stripPadding_def)
  next
    case 3
    then show ?thesis using assms(3) by (simp add: stripPadding_def numeral_2_eq_2)
  qed
qed

lemma length_sextetsOf_mod: "length (sextetsOf bs) mod 4 \<noteq> 1"
  by (induction bs rule: sextetsOf.induct) simp_all

lemma atob_b64groups:
  assumes "\<forall>b\<in>set bs. b < 256"
  shows "atob (b64groups bs) = Inr bs"
proof -
  let ?u = "map b64char (sextetsOf bs)"
  have v: "\<forall>v\<in>set (sextetsOf bs). v < 64" using assms by (rule sextetsOf_bound)
  then have plain: "\<forall>c\<in>set ?u. c \<noteq> CHR ''='' \<and> \<not> asciiWhitespace c"
    using b64char_plain by auto
  have nows: "filter (\<lambda>c. \<not> asciiWhitespace c) (b64groups bs) = b64groups bs"
    unfolding b64groups_split using plain
    by (auto simp add: asciiWhitespace_def filter_id_conv)
  have strip: "stripPadding (b64groups bs) = ?u"
    unfolding b64groups_split using plain length_sextetsOf [of bs]
    by (intro stripPadding_plain) auto
  have "length ?u mod 4 \<noteq> 1" using length_sextetsOf_mod [of bs] by simp
  moreover have "sextets ?u = Some (sextetsOf bs)" using v by (rule sextets_map)
  ultimately show ?thesis
    using assms by (simp add: atob_def nows strip b64bytes_sextetsOf)
qed

lemma binaryFrom_eq: "binaryFrom i u = fromCharCode (drop i u)"
proof (induction i u rule: binaryFrom.induct)
  case (1 i u)
  show ?case
  proof (cases "i < length u")
    case True
    have "drop i u = take chunkSize (drop i u) @ drop (i + chunkSize) u"
      by (metis add.commute append_take_drop_id drop_drop)
    then have "fromCharCode (drop i u) =
        fromCharCode (take chunkSize (drop i u)) @ fromCharCode (drop (i + chunkSize) u)"
      unfolding fromCharCode_def by (metis map_append)
    with True "1.IH" show ?thesis
      by (subst binaryFrom.simps) simp
  next
    case False
    then show ?thesis by (subst binaryFrom.simps) (simp add: fromCharCode_def)
  qed
qed

lemma uint8View_bytes: "\<forall>b\<in>set (uint8View pcm). b < 256"
proof -
  have "unat w div 256 < 256" for w :: "16 word"
    using unsigned_less [of w, where ?'a = nat] by simp
  then show ?thesis by (auto simp add: uint8View_def)
qed

lemma binary_uint8View: "binaryFrom 0 (uint8View pcm) = uint8View pcm"
proof -
  have "map (\<lambda>b. b mod 65536) (uint8View pcm) = uint8View pcm"
  proof (rule map_idI)
    fix b assume "b \<in> set (uint8View pcm)"
    then have "b < 256" using uint8View_bytes by blast
    then show "b mod 65536 = b" by simp
  qed
  then show ?thesis
    using binaryFrom_eq [of 0 "uint8View pcm"] by (simp only: fromCharCode_def drop_0)
qed

lemma getInt16_bytes: "getInt16 (unat w mod 256) (unat w div 256) = sint w" for w :: "16 word"
  by (simp add: getInt16_def)

lemma readSamples_uint8View:
  "readSamples (uint8View pcm) = Inr (map (\<lambda>w. of_int (sint w) / 32768) pcm)"
  by (induction pcm) (simp_all add: uint8View_def getInt16_bytes)

lemma encode_ok: "encodePCMToBase64 pcm = Inr (b64groups (uint8View pcm))"
proof -
  have nb: "(\<exists>c\<in>set (uint8View pcm). 255 < c) = False"
    using uint8View_bytes [of pcm] by auto
  show ?thesis
    unfolding encodePCMToBase64_def btoa_def binary_uint8View
    by (simp only: nb if_False)
qed

lemma decodeSamples_encoded:
  "decodeSamples (b64groups (uint8View pcm)) = Inr (map (\<lambda>w. of_int (sint w) / 32768) pcm)"
proof -
  have b: "\<forall>b\<in>set (uint8View pcm). b < 256" by (rule uint8View_bytes)
  have "map (\<lambda>c. c mod 256) (uint8View pcm) = uint8View pcm"
  proof (rule map_idI)
    fix c assume "c \<in> set (uint8View pcm)"
    then have "c < 256" using b by blast
    then show "c mod 256 = c" by simp
  qed
  then show ?thesis
    unfolding decodeSamples_def atob_b64groups [OF b]
    by (simp only: sum.case readSamples_uint8View)
qed

text \<open>
  C3. For every sequence of 16-bit samples, encoding succeeds, and decoding the encoded
  payload yields exactly \<open>pcm[i] / 32768\<close> at every index, so that multiplying the
  decoded values by 32768 gives back the original samples. (The declared sample rate does
  not enter the decoded values.)
\<close>

theorem codec_round_trip:
  "encodePCMToBase64 pcm = Inr (b64groups (uint8View pcm))
   \<and> decodeSamples (b64groups (uint8View pcm)) = Inr (map (\<lambda>w. of_int (sint w) / 32768) pcm)
   \<and> map (\<lambda>f. f * 32768) (map (\<lambda>w. of_int (sint w) / 32768) pcm)
       = map (\<lambda>w. rat_of_int (sint w)) pcm"
proof -
  have scaled: "map (\<lambda>f. f * 32768) (map (\<lambda>w. of_int (sint w) / 32768) pcm)
      = map (\<lambda>w. rat_of_int (sint w)) pcm"
    by simp
  show ?thesis
    using encode_ok [of pcm] decodeSamples_encoded [of pcm] scaled by (simp only: simp_thms)
qed

theorem codec_round_trip_witness:
  "encodePCMToBase64 [1, - 1, 256] = Inr ''AQD//wAB''
   \<and> decodeSamples ''AQD//wAB'' = Inr [1 / 32768, - (1 / 32768), 1 / 128]"
proof -
  have u: "uint8View [1, - 1, 256] = [1, 0, 255, 255, 0, 1]"
    by (simp add: uint8View_def unsigned_minus_1_eq_mask mask_eq_exp_minus_1)
  have g: "b64groups [1, 0, 255, 255, 0, 1] = ''AQD//wAB''"
    by (simp add: b64char_def b64chars_def)
  have m: "map (\<lambda>w. rat_of_int (sint w) / 32768) [1, - 1, 256 :: 16 word]
      = [1 / 32768, - (1 / 32768), 1 / 128]"
    by simp
  from codec_round_trip [of "[1, - 1, 256]"] show ?thesis
    unfolding u g m by (simp only: simp_thms)
qed


section \<open>Properties of the streaming transport\<close>

subsection \<open>Queueing and flushing\<close>

lemma flushLoop_eq: "flushLoop s queue sent = sent @ map (Pair s) queue"
  by (induction queue arbitrary: sent) simp_all

lemma send_queued: "\<not> isConnected vs \<Longrightarrow> send f vs = vs\<lparr>messageQueue := messageQueue vs @ [f]\<rparr>"
  by (simp add: send_def isConnected_def split: option.splits)

lemma isConnected_queue [simp]: "isConnected (vs\<lparr>messageQueue := q\<rparr>) = isConnected vs"
  by (simp add: isConnected_def readyStateOf_def split: option.splits)

lemma sendAll_queued:
  "\<not> isConnected vs \<Longrightarrow> sendAll fs vs = vs\<lparr>messageQueue := messageQueue vs @ fs\<rparr>"
proof (induction fs arbitrary: vs)
  case Nil
  show ?case by simp
next
  case (Cons f fs)
  have "\<not> isConnected (send f vs)"
    using Cons.prems by (simp add: send_queued)
  from Cons.IH [OF this] show ?case
    using Cons.prems by (simp add: send_queued)
qed

lemma send_open:
  "socket vs = Some s \<Longrightarrow> readyStateOf vs s = OPEN \<Longrightarrow>
   send f vs = vs\<lparr>transmitted := transmitted vs @ [(s, f)]\<rparr>"
  by (simp add: send_def)

lemma sendAll_open:
  "socket vs = Some s \<Longrightarrow> readyStateOf vs s = OPEN \<Longrightarrow>
   sendAll gs vs = vs\<lparr>transmitted := transmitted vs @ map (Pair s) gs\<rparr>"
proof (induction gs arbitrary: vs)
  case Nil
  show ?case by simp
next
  case (Cons g gs)
  let ?v = "vs\<lparr>transmitted := transmitted vs @ [(s, g)]\<rparr>"
  have "socket ?v = Some s" "readyStateOf ?v s = OPEN"
    using Cons.prems by (simp_all add: readyStateOf_def split: if_splits)
  from Cons.IH [OF this] show ?case
    using Cons.prems by (simp add: send_open)
qed

lemma socketOpened_flush:
  assumes "socket vs = Some s" and "s < length (sockets vs)"
  shows "socketOpened s vs =
    vs\<lparr>sockets := (sockets vs)[s := OPEN],
       logged := logged vs @ [(WebSocketConnected, Success)],
       reconnectAttempts := 0,
       transmitted := transmitted vs @ map (Pair s) (messageQueue vs),
       messageQueue := []\<rparr>"
  using assms
  by (simp add: socketOpened_def onopen_def flushMessageQueue_def log_msg_def readyStateOf_def
      flushLoop_eq)


lemma init_new: "init chrome newVoiceSocket =
   newVoiceSocket\<lparr>socket := Some 0, sockets := [CONNECTING]\<rparr>"
  by (simp add: init_def connect_def chrome_def newVoiceSocket_def)

text \<open>
  C4. Frames submitted while the transport is not connected are all appended to the
  outbound queue and none is transmitted. When the current socket then opens, the whole
  queue is transmitted in submission order and emptied, and frames submitted afterwards
  are transmitted after it, in their order.
\<close>

theorem queue_flushed_in_order:
  "(\<not> isConnected vs \<longrightarrow>
      messageQueue (sendAll fs vs) = messageQueue vs @ fs
      \<and> transmitted (sendAll fs vs) = transmitted vs)
   \<and> (socket vs = Some s \<and> s < length (sockets vs) \<and> readyStateOf vs s \<noteq> OPEN \<longrightarrow>
      transmitted (socketOpened s (sendAll fs vs))
        = transmitted vs @ map (Pair s) (messageQueue vs @ fs)
      \<and> messageQueue (socketOpened s (sendAll fs vs)) = []
      \<and> isConnected (socketOpened s (sendAll fs vs))
      \<and> transmitted (sendAll gs (socketOpened s (sendAll fs vs)))
        = transmitted vs @ map (Pair s) (messageQueue vs @ fs) @ map (Pair s) gs)"
proof (intro conjI impI)
  assume n: "\<not> isConnected vs"
  show "messageQueue (sendAll fs vs) = messageQueue vs @ fs"
    by (simp add: sendAll_queued [OF n])
  show "transmitted (sendAll fs vs) = transmitted vs"
    by (simp add: sendAll_queued [OF n])
next
  assume a: "socket vs = Some s \<and> s < length (sockets vs) \<and> readyStateOf vs s \<noteq> OPEN"
  then have n: "\<not> isConnected vs" by (simp add: isConnected_def)
  let ?q = "vs\<lparr>messageQueue := messageQueue vs @ fs\<rparr>"
  have q: "sendAll fs vs = ?q" by (rule sendAll_queued [OF n])
  have o: "socketOpened s ?q =
    ?q\<lparr>sockets := (sockets ?q)[s := OPEN],
       logged := logged ?q @ [(WebSocketConnected, Success)],
       reconnectAttempts := 0,
       transmitted := transmitted ?q @ map (Pair s) (messageQueue ?q),
       messageQueue := []\<rparr>"
    using a by (intro socketOpened_flush) simp_all
  show "transmitted (socketOpened s (sendAll fs vs))
        = transmitted vs @ map (Pair s) (messageQueue vs @ fs)"
    unfolding q o by simp
  show "messageQueue (socketOpened s (sendAll fs vs)) = []"
    unfolding q o by simp
  show c: "isConnected (socketOpened s (sendAll fs vs))"
    unfolding q o using a by (simp add: isConnected_def readyStateOf_def)
  have "socket (socketOpened s ?q) = Some s" "readyStateOf (socketOpened s ?q) s = OPEN"
    unfolding o using a by (simp_all add: readyStateOf_def)
  from sendAll_open [OF this, of gs]
  show "transmitted (sendAll gs (socketOpened s (sendAll fs vs)))
        = transmitted vs @ map (Pair s) (messageQueue vs @ fs) @ map (Pair s) gs"
    unfolding q by (simp add: o)
qed

theorem queue_flushed_in_order_witness:
  "\<not> isConnected (init chrome newVoiceSocket)
   \<and> messageQueue (sendAll [frameA, frameB] (init chrome newVoiceSocket)) = [frameA, frameB]
   \<and> transmitted (sendAll [frameA, frameB] (init chrome newVoiceSocket)) = []
   \<and> transmitted
        (sendAll [frameC] (socketOpened 0 (sendAll [frameA, frameB] (init chrome newVoiceSocket))))
      = [(0, frameA), (0, frameB), (0, frameC)]"
proof -
  have h: "\<not> isConnected (init chrome newVoiceSocket)"
    "socket (init chrome newVoiceSocket) = Some 0"
    "0 < length (sockets (init chrome newVoiceSocket))"
    "readyStateOf (init chrome newVoiceSocket) 0 \<noteq> OPEN"
    "messageQueue (init chrome newVoiceSocket) = []"
    "transmitted (init chrome newVoiceSocket) = []"
    unfolding init_new by (simp_all add: isConnected_def readyStateOf_def newVoiceSocket_def)
  from queue_flushed_in_order
    [of "init chrome newVoiceSocket" "[frameA, frameB]" 0 "[frameC]"] h
  show ?thesis by simp
qed

lemma init_fields:
  "messageQueue (init br vs) = [] \<and> reconnectAttempts (init br vs) = 0
   \<and> isClosing (init br vs) = False \<and> transmitted (init br vs) = transmitted vs
   \<and> timers (init br vs) = timers vs"
  by (simp add: init_def connect_def)

lemma init_socket:
  "hasWindow br \<Longrightarrow> socket (init br vs) = Some (length (sockets vs))
     \<and> sockets (init br vs) = sockets vs @ [CONNECTING]"
  by (simp add: init_def connect_def)


text \<open>
  C10. \<open>init\<close> empties the outbound queue and resets the attempt counter and the closing
  flag, whatever the state. Frames queued before \<open>init\<close> are therefore never transmitted:
  when the socket that \<open>init\<close> created opens, nothing is sent.
\<close>

theorem init_discards_queue:
  "messageQueue (init br vs) = [] \<and> reconnectAttempts (init br vs) = 0
   \<and> isClosing (init br vs) = False \<and> transmitted (init br vs) = transmitted vs
   \<and> (\<not> isConnected vs \<and> hasWindow br \<longrightarrow>
        messageQueue (sendAll fs vs) = messageQueue vs @ fs
        \<and> socket (init br (sendAll fs vs)) = Some (length (sockets vs))
        \<and> isConnected (socketOpened (length (sockets vs)) (init br (sendAll fs vs)))
        \<and> messageQueue (socketOpened (length (sockets vs)) (init br (sendAll fs vs))) = []
        \<and> transmitted (socketOpened (length (sockets vs)) (init br (sendAll fs vs)))
            = transmitted vs)"
proof -
  have a: "messageQueue (init br vs) = [] \<and> reconnectAttempts (init br vs) = 0
     \<and> isClosing (init br vs) = False \<and> transmitted (init br vs) = transmitted vs"
    using init_fields [of br vs] by simp
  have b: "messageQueue (sendAll fs vs) = messageQueue vs @ fs
        \<and> socket (init br (sendAll fs vs)) = Some (length (sockets vs))
        \<and> isConnected (socketOpened (length (sockets vs)) (init br (sendAll fs vs)))
        \<and> messageQueue (socketOpened (length (sockets vs)) (init br (sendAll fs vs))) = []
        \<and> transmitted (socketOpened (length (sockets vs)) (init br (sendAll fs vs)))
            = transmitted vs"
    if n: "\<not> isConnected vs" and w: "hasWindow br"
  proof -
    let ?q = "vs\<lparr>messageQueue := messageQueue vs @ fs\<rparr>"
    let ?s = "length (sockets vs)"
    have q: "sendAll fs vs = ?q" by (rule sendAll_queued [OF n])
    have i: "socket (init br ?q) = Some ?s" "sockets (init br ?q) = sockets vs @ [CONNECTING]"
      using init_socket [OF w, of ?q] by simp_all
    have o: "socketOpened ?s (init br ?q) =
      (init br ?q)\<lparr>sockets := (sockets (init br ?q))[?s := OPEN],
         logged := logged (init br ?q) @ [(WebSocketConnected, Success)],
         reconnectAttempts := 0,
         transmitted := transmitted (init br ?q) @ map (Pair ?s) (messageQueue (init br ?q)),
         messageQueue := []\<rparr>"
      using i by (intro socketOpened_flush) simp_all
    have f: "messageQueue (init br ?q) = []" "transmitted (init br ?q) = transmitted vs"
      using init_fields [of br ?q] by simp_all
    show ?thesis
      unfolding q o using i f by (simp add: isConnected_def readyStateOf_def)
  qed
  from a b show ?thesis by blast
qed

theorem init_discards_queue_witness:
  "\<not> isConnected newVoiceSocket \<and> hasWindow chrome
   \<and> messageQueue (sendAll [frameA, frameB] newVoiceSocket) = [frameA, frameB]
   \<and> messageQueue (init chrome (sendAll [frameA, frameB] newVoiceSocket)) = []
   \<and> isConnected (socketOpened 0 (init chrome (sendAll [frameA, frameB] newVoiceSocket)))
   \<and> transmitted (socketOpened 0 (init chrome (sendAll [frameA, frameB] newVoiceSocket))) = []"
proof -
  have h: "\<not> isConnected newVoiceSocket" "hasWindow chrome"
    "messageQueue newVoiceSocket = []" "transmitted newVoiceSocket = []"
    "length (sockets newVoiceSocket) = 0"
    by (simp_all add: isConnected_def newVoiceSocket_def chrome_def)
  from init_discards_queue [of chrome "sendAll [frameA, frameB] newVoiceSocket"]
  have "messageQueue (init chrome (sendAll [frameA, frameB] newVoiceSocket)) = []" by simp
  with init_discards_queue [of chrome newVoiceSocket "[frameA, frameB]"] h
  show ?thesis by simp
qed

subsection \<open>Reconnection\<close>

lemma onclose_schedules:
  assumes "\<not> isClosing vs" and "code \<noteq> 1000" and "reconnectAttempts vs < maxReconnectAttempts"
  shows "timers (onclose code vs) = timers vs @ [reconnectDelay * reconnectAttempts vs]
    \<and> reconnectAttempts (onclose code vs) = reconnectAttempts vs
    \<and> isClosing (onclose code vs) = False
    \<and> socket (onclose code vs) = socket vs \<and> sockets (onclose code vs) = sockets vs"
  using assms
  by (simp add: onclose_def teardownPlayback_def log_msg_def Let_def split: option.splits)

lemma onclose_no_schedule:
  assumes "isClosing vs \<or> code = 1000 \<or> maxReconnectAttempts \<le> reconnectAttempts vs"
  shows "timers (onclose code vs) = timers vs
    \<and> reconnectAttempts (onclose code vs) = reconnectAttempts vs
    \<and> socket (onclose code vs) = socket vs \<and> sockets (onclose code vs) = sockets vs"
  using assms
  by (auto simp add: onclose_def teardownPlayback_def log_msg_def Let_def split: option.splits)

lemma closeThenTimer_retry:
  assumes w: "hasWindow br" and c: "\<not> isClosing vs" and t: "timers vs = []"
    and s: "socket vs = Some s" and k: "reconnectAttempts vs < maxReconnectAttempts"
    and n: "code \<noteq> 1000"
  shows "reconnectAttempts (closeThenTimer br code vs) = reconnectAttempts vs + 1
    \<and> timers (closeThenTimer br code vs) = []
    \<and> \<not> isClosing (closeThenTimer br code vs)
    \<and> socket (closeThenTimer br code vs) = Some (length (sockets vs))
    \<and> length (sockets (closeThenTimer br code vs)) = length (sockets vs) + 1
    \<and> transmitted (closeThenTimer br code vs) = transmitted vs"
proof -
  let ?c = "vs\<lparr>sockets := (sockets vs)[s := CLOSED]\<rparr>"
  have "\<not> isClosing ?c" "reconnectAttempts ?c < maxReconnectAttempts"
    using c k by simp_all
  from onclose_schedules [OF this(1) n this(2)]
  have o: "timers (onclose code ?c) = [reconnectDelay * reconnectAttempts vs]"
    "reconnectAttempts (onclose code ?c) = reconnectAttempts vs"
    "isClosing (onclose code ?c) = False"
    "length (sockets (onclose code ?c)) = length (sockets vs)"
    using t by simp_all
  have tr: "transmitted (onclose code ?c) = transmitted vs"
    by (simp add: onclose_def teardownPlayback_def log_msg_def Let_def split: option.splits)
  show ?thesis
    using s w o tr
    by (simp add: closeThenTimer_def socketClosed_def timerFired_def reconnectCallback_def
        connect_def log_msg_def Let_def)
qed

lemma closures_retry:
  assumes "hasWindow br"
  shows "\<not> isClosing vs \<Longrightarrow> timers vs = [] \<Longrightarrow> socket vs = Some s \<Longrightarrow>
    reconnectAttempts vs + length codes \<le> maxReconnectAttempts \<Longrightarrow>
    \<forall>c\<in>set codes. c \<noteq> 1000 \<Longrightarrow>
    reconnectAttempts (closures br codes vs) = reconnectAttempts vs + length codes
    \<and> timers (closures br codes vs) = []
    \<and> \<not> isClosing (closures br codes vs)
    \<and> (\<exists>s'. socket (closures br codes vs) = Some s')
    \<and> length (sockets (closures br codes vs)) = length (sockets vs) + length codes
    \<and> transmitted (closures br codes vs) = transmitted vs"
proof (induction codes arbitrary: vs s)
  case Nil
  then show ?case by simp
next
  case (Cons code codes)
  let ?v = "closeThenTimer br code vs"
  have k: "reconnectAttempts vs < maxReconnectAttempts" and n: "code \<noteq> 1000"
    using Cons.prems by simp_all
  note r = closeThenTimer_retry [OF assms Cons.prems(1) Cons.prems(2) Cons.prems(3) k n]
  have "reconnectAttempts ?v + length codes \<le> maxReconnectAttempts"
    using r Cons.prems(4) by simp
  moreover have "\<forall>c\<in>set codes. c \<noteq> 1000" using Cons.prems(5) by simp
  ultimately have "reconnectAttempts (closures br codes ?v) = reconnectAttempts ?v + length codes
    \<and> timers (closures br codes ?v) = []
    \<and> \<not> isClosing (closures br codes ?v)
    \<and> (\<exists>s'. socket (closures br codes ?v) = Some s')
    \<and> length (sockets (closures br codes ?v)) = length (sockets ?v) + length codes
    \<and> transmitted (closures br codes ?v) = transmitted ?v"
    using r by (intro Cons.IH [of ?v "length (sockets vs)"]) simp_all
  with r show ?case by simp
qed


lemma closures_append: "closures br (xs @ ys) vs = closures br ys (closures br xs vs)"
  by (induction xs arbitrary: vs) simp_all

lemma closeThenTimer_exhausted:
  assumes "maxReconnectAttempts \<le> reconnectAttempts vs" and "timers vs = []"
    and "socket vs = Some s"
  shows "reconnectAttempts (closeThenTimer br code vs) = reconnectAttempts vs
    \<and> timers (closeThenTimer br code vs) = []
    \<and> socket (closeThenTimer br code vs) = Some s
    \<and> length (sockets (closeThenTimer br code vs)) = length (sockets vs)
    \<and> \<not> isConnected (closeThenTimer br code vs)"
proof -
  let ?c = "vs\<lparr>sockets := (sockets vs)[s := CLOSED]\<rparr>"
  have "maxReconnectAttempts \<le> reconnectAttempts ?c" using assms(1) by simp
  then have n: "timers (onclose code ?c) = []" "socket (onclose code ?c) = Some s"
    "sockets (onclose code ?c) = (sockets vs)[s := CLOSED]"
    "reconnectAttempts (onclose code ?c) = reconnectAttempts vs"
    using onclose_no_schedule [of ?c code] assms by simp_all
  show ?thesis
    using assms(3) n
    by (simp add: closeThenTimer_def socketClosed_def timerFired_def isConnected_def
        readyStateOf_def)
qed

lemma closures_exhausted:
  "maxReconnectAttempts \<le> reconnectAttempts vs \<Longrightarrow> timers vs = [] \<Longrightarrow>
   socket vs = Some s \<Longrightarrow>
   reconnectAttempts (closures br (code # codes) vs) = reconnectAttempts vs
   \<and> timers (closures br (code # codes) vs) = []
   \<and> length (sockets (closures br (code # codes) vs)) = length (sockets vs)
   \<and> \<not> isConnected (closures br (code # codes) vs)"
proof (induction codes arbitrary: vs code)
  case Nil
  from closeThenTimer_exhausted [OF Nil, of br code] show ?case by simp
next
  case (Cons c codes)
  let ?v = "closeThenTimer br code vs"
  note e = closeThenTimer_exhausted [OF Cons.prems, of br code]
  have "maxReconnectAttempts \<le> reconnectAttempts ?v" "timers ?v = []" "socket ?v = Some s"
    using e Cons.prems(1) by simp_all
  from Cons.IH [OF this, of c] e show ?case by simp
qed


text \<open>
  C5. After \<open>init\<close>, five consecutive closes with codes other than 1000, each followed
  by its reconnect timer, create exactly five more sockets and leave the counter at 5.
  Whatever closes follow, no further socket is created, no timer is pending and the
  transport is not connected. A close with code 1000 never sets a timer, in any state.
\<close>

theorem reconnect_budget:
  "(hasWindow br \<and> timers vs = [] \<and> length codes = 5 \<and> (\<forall>c\<in>set codes. c \<noteq> 1000) \<longrightarrow>
      length (sockets (closures br codes (init br vs))) = length (sockets vs) + 1 + 5
      \<and> reconnectAttempts (closures br codes (init br vs)) = 5
      \<and> timers (closures br codes (init br vs)) = []
      \<and> length (sockets (closures br (codes @ code # later) (init br vs)))
          = length (sockets vs) + 1 + 5
      \<and> timers (closures br (codes @ code # later) (init br vs)) = []
      \<and> \<not> isConnected (closures br (codes @ code # later) (init br vs)))
   \<and> timers (socketClosed s 1000 vs') = timers vs'"
proof (intro conjI impI)
  show "timers (socketClosed s 1000 vs') = timers vs'"
    using onclose_no_schedule [of "vs'\<lparr>sockets := (sockets vs')[s := CLOSED]\<rparr>" 1000]
    by (simp add: socketClosed_def)
next
  assume a: "hasWindow br \<and> timers vs = [] \<and> length codes = 5 \<and> (\<forall>c\<in>set codes. c \<noteq> 1000)"
  let ?i = "init br vs"
  let ?v = "closures br codes ?i"
  have i: "\<not> isClosing ?i" "timers ?i = []" "socket ?i = Some (length (sockets vs))"
    "reconnectAttempts ?i + length codes \<le> maxReconnectAttempts"
    "length (sockets ?i) = length (sockets vs) + 1" "reconnectAttempts ?i = 0"
    using a init_fields [of br vs] init_socket [of br vs]
    by (simp_all add: maxReconnectAttempts_def)
  have c: "\<forall>c\<in>set codes. c \<noteq> 1000" using a by simp
  have w: "hasWindow br" using a by simp
  note r = closures_retry [OF w i(1) i(2) i(3) i(4) c]
  show l: "length (sockets ?v) = length (sockets vs) + 1 + 5"
    using r i a by simp
  show k: "reconnectAttempts ?v = 5" using r i a by simp
  show t: "timers ?v = []" using r by simp
  obtain s' where s': "socket ?v = Some s'" using r by blast
  have m: "maxReconnectAttempts \<le> reconnectAttempts ?v"
    using k by (simp add: maxReconnectAttempts_def)
  note e = closures_exhausted [OF m t s', of br code later]
  show "length (sockets (closures br (codes @ code # later) ?i)) = length (sockets vs) + 1 + 5"
    using e l by (simp add: closures_append)
  show "timers (closures br (codes @ code # later) ?i) = []"
    using e by (simp add: closures_append)
  show "\<not> isConnected (closures br (codes @ code # later) ?i)"
    using e by (simp add: closures_append)
qed

theorem reconnect_budget_witness:
  "length (sockets (closures chrome [1006, 1006, 1001, 1011, 1006] (init chrome newVoiceSocket))) = 6
   \<and> reconnectAttempts
        (closures chrome [1006, 1006, 1001, 1011, 1006] (init chrome newVoiceSocket)) = 5
   \<and> timers (closures chrome [1006, 1006, 1001, 1011, 1006, 1006] (init chrome newVoiceSocket)) = []
   \<and> length (sockets
        (closures chrome [1006, 1006, 1001, 1011, 1006, 1006] (init chrome newVoiceSocket))) = 6
   \<and> \<not> isConnected
        (closures chrome [1006, 1006, 1001, 1011, 1006, 1006] (init chrome newVoiceSocket))"
  using reconnect_budget [of chrome newVoiceSocket "[1006, 1006, 1001, 1011, 1006]" 1006 "[]"]
  by (simp add: chrome_def newVoiceSocket_def)

text \<open>
  C1. The delay of a reconnect timer is \<open>reconnectDelay\<close> times the counter as it is
  when the socket closes, and the counter is incremented only when the timer fires. On
  the first unexpected close after \<open>init\<close> the timer is therefore set with delay 0, not
  1000, although the attempt it starts is logged as attempt 1 of 5.
\<close>

theorem first_retry_delay:
  "timers (socketClosed 0 1006 (init chrome newVoiceSocket)) = [0]
   \<and> reconnectAttempts (socketClosed 0 1006 (init chrome newVoiceSocket)) = 0
   \<and> logged (timerFired chrome (socketClosed 0 1006 (init chrome newVoiceSocket)))
      = [(WebSocketDisconnected 1006, Info), (AttemptingToReconnect 1 5, Info)]"
  unfolding init_new
  by (simp add: socketClosed_def newVoiceSocket_def onclose_def chrome_def connect_def
      timerFired_def reconnectCallback_def
      teardownPlayback_def log_msg_def Let_def maxReconnectAttempts_def reconnectDelay_def)


section \<open>Properties of the playback scheduler\<close>

lemma readSamples_odd: "odd (length bytes) \<Longrightarrow> readSamples bytes = Inl RangeError"
  by (induction bytes rule: readSamples.induct) simp_all

lemma readSamples_length: "readSamples bytes = Inr float32 \<Longrightarrow> 2 * length float32 = length bytes"
  by (induction bytes arbitrary: float32 rule: readSamples.induct) (auto split: sum.splits)

lemma atob_empty: "atob [] = Inr []"
  by (simp add: atob_def stripPadding_def)


text \<open>
  C8. If the payload of an inbound audio message decodes to an odd number of bytes, the
  sample loop reads past the end of the buffer, and the failure is caught: nothing is
  scheduled for playback, the connection, the queue and the timers are untouched, and
  (when a playback context is available) exactly one entry is logged, the playback
  error, at level error.
\<close>

theorem odd_payload_reported:
  assumes "atob encoded = Inr byteStr" and "odd (length byteStr)"
  shows "started (handleAudioPlayback br now \<lparr>msg_data = Some encoded, msg_sample_rate = rate\<rparr> vs)
      = started vs
    \<and> socket (handleAudioPlayback br now \<lparr>msg_data = Some encoded, msg_sample_rate = rate\<rparr> vs)
      = socket vs
    \<and> sockets (handleAudioPlayback br now \<lparr>msg_data = Some encoded, msg_sample_rate = rate\<rparr> vs)
      = sockets vs
    \<and> messageQueue (handleAudioPlayback br now \<lparr>msg_data = Some encoded, msg_sample_rate = rate\<rparr> vs)
      = messageQueue vs
    \<and> timers (handleAudioPlayback br now \<lparr>msg_data = Some encoded, msg_sample_rate = rate\<rparr> vs)
      = timers vs
    \<and> (hasWindow br \<and> hasAudioContext br \<longrightarrow>
        logged (handleAudioPlayback br now \<lparr>msg_data = Some encoded, msg_sample_rate = rate\<rparr> vs)
          = logged vs @ [(AudioPlaybackError RangeError, Error)])"
proof -
  have ne: "encoded \<noteq> []"
    using assms atob_empty by auto
  have "length (map (\<lambda>c. c mod 256) byteStr) = length byteStr" by simp
  then have "readSamples (map (\<lambda>c. c mod 256) byteStr) = Inl RangeError"
    using assms(2) readSamples_odd by metis
  then have d: "decodeSamples encoded = Inl RangeError"
    using assms(1) by (simp add: decodeSamples_def)
  show ?thesis
    using ne d
    by (simp add: handleAudioPlayback_def ensurePlaybackContext_def log_msg_def)
qed

theorem odd_payload_reported_witness:
  "atob ''AQD//wA='' = Inr [1, 0, 255, 255, 0]
   \<and> started (handleAudioPlayback chrome 0
        \<lparr>msg_data = Some ''AQD//wA='', msg_sample_rate = None\<rparr> newVoiceSocket) = []
   \<and> logged (handleAudioPlayback chrome 0
        \<lparr>msg_data = Some ''AQD//wA='', msg_sample_rate = None\<rparr> newVoiceSocket)
      = [(AudioPlaybackError RangeError, Error)]"
proof -
  have a: "atob ''AQD//wA='' = Inr [1, 0, 255, 255, 0]"
    by (simp add: atob_def stripPadding_def asciiWhitespace_def b64index_def b64chars_def)
  have o: "odd (length [1, 0, 255, 255, 0 :: nat])" by simp
  from odd_payload_reported [OF a o, of chrome 0 None newVoiceSocket] a
  show ?thesis by (simp add: chrome_def newVoiceSocket_def)
qed

lemma decodeSamples_nonempty: "decodeSamples encoded = Inr float32 \<Longrightarrow> float32 \<noteq> [] \<Longrightarrow> encoded \<noteq> []"
  by (auto simp add: decodeSamples_def atob_empty)

text \<open>
  The constants 0.05 and 0.1 of the scheduler lie between doubles that are easy to name.
\<close>

lemma anchor_1: "dbl (1 / 32) = 1 / 32"
  by (rule dbl_eqI [where e = "- 5" and k = 4503599627370496]) (simp_all add: power_int_minus)

lemma anchor_2: "dbl (1 / 16) = 1 / 16"
  by (rule dbl_eqI [where e = "- 4" and k = 4503599627370496]) (simp_all add: power_int_minus)

lemma anchor_3: "dbl (3 / 32) = 3 / 32"
  by (rule dbl_eqI [where e = "- 4" and k = 6755399441055744]) (simp_all add: power_int_minus)

lemma anchor_4: "dbl (1 / 8) = 1 / 8"
  by (rule dbl_eqI [where e = "- 3" and k = 4503599627370496]) (simp_all add: power_int_minus)

lemma underrun_margin: "1 / 32 \<le> dbl (5 / 100) \<and> dbl (5 / 100) \<le> 1 / 16"
  using dbl_mono [of "1 / 32" "5 / 100"] dbl_mono [of "5 / 100" "1 / 16"]
  by (simp add: anchor_1 anchor_2)

lemma safety_buffer: "3 / 32 \<le> dbl (1 / 10) \<and> dbl (1 / 10) \<le> 1 / 8"
  using dbl_mono [of "3 / 32" "1 / 10"] dbl_mono [of "1 / 10" "1 / 8"]
  by (simp add: anchor_3 anchor_4)

lemma start_nonneg:
  assumes "0 \<le> now"
  shows "\<not> (if c < dbl (now + dbl (5 / 100)) then dbl (now + dbl (1 / 10)) else c) < 0"
proof -
  have "0 \<le> dbl (now + dbl (5 / 100))" "0 \<le> dbl (now + dbl (1 / 10))"
    using assms underrun_margin safety_buffer by (simp_all add: dbl_nonneg)
  then show ?thesis by (simp split: if_splits)
qed

lemma ensure_context:
  assumes "hasWindow br"
    and "hasAudioContext br \<or> (\<exists>c. playbackContext vs = Some c \<and> c \<noteq> Closed)"
  shows "fst (ensurePlaybackContext br now vs)
    \<and> started (snd (ensurePlaybackContext br now vs)) = started vs"
  using assms by (auto simp add: ensurePlaybackContext_def)

lemma handle_scheduled:
  assumes w: "hasWindow br"
    and c: "hasAudioContext br \<or> (\<exists>c. playbackContext vs = Some c \<and> c \<noteq> Closed)"
    and m: "msg_data payload = Some encoded"
    and d: "decodeSamples encoded = Inr float32" and n: "float32 \<noteq> []"
    and r: "supportsRate br (fround (case msg_sample_rate payload of None \<Rightarrow> 24000 | Some r \<Rightarrow> r))"
    and t: "0 \<le> now"
  shows "handleAudioPlayback br now payload vs =
    (let vs1 = snd (ensurePlaybackContext br now vs);
         rate = (case msg_sample_rate payload of None \<Rightarrow> 24000 | Some r \<Rightarrow> r);
         start = (if playbackClock vs1 < dbl (now + dbl (5 / 100)) then dbl (now + dbl (1 / 10))
                  else playbackClock vs1)
     in vs1\<lparr>started := started vs1 @ [(start, float32, rate)],
            playbackClock := dbl (start + dbl (of_nat (length float32) / fround rate))\<rparr>)"
proof -
  have e: "encoded \<noteq> []" using d n by (rule decodeSamples_nonempty)
  obtain vs1 where p: "ensurePlaybackContext br now vs = (True, vs1)"
    using ensure_context [OF w c, of now] by (cases "ensurePlaybackContext br now vs") auto
  show ?thesis
    using e n r start_nonneg [OF t, of "playbackClock vs1"]
    by (simp add: handleAudioPlayback_def m p d scheduleBuffer_def Let_def)
qed

lemma dbl_near:
  assumes "1 / 32 \<le> x" and "x \<le> 2 ^ 32"
  shows "x - 1 / 2 ^ 21 \<le> dbl x"
proof -
  have "x / 2 ^ 53 \<le> 2 ^ 32 / 2 ^ 53" using assms(2) by (simp add: divide_right_mono)
  then have "x / 2 ^ 53 \<le> 1 / 2 ^ 21" by simp
  with dbl_rel_lower [OF assms(1)] show ?thesis by linarith
qed

lemma first_start:
  assumes "0 \<le> now" and "now \<le> 2 ^ 30"
  shows "now < dbl (now + dbl (5 / 100))"
    and "now + 3 / 32 - 1 / 2 ^ 21 \<le> dbl (now + dbl (1 / 10))"
    and "dbl (now + dbl (1 / 10)) + 1 \<le> 2 ^ 32"
proof -
  note u = underrun_margin and s = safety_buffer
  have "now + dbl (5 / 100) - 1 / 2 ^ 21 \<le> dbl (now + dbl (5 / 100))"
    using assms u by (intro dbl_near) simp_all
  with u show "now < dbl (now + dbl (5 / 100))" by simp
  have "now + dbl (1 / 10) - 1 / 2 ^ 21 \<le> dbl (now + dbl (1 / 10))"
    using assms s by (intro dbl_near) simp_all
  with s show "now + 3 / 32 - 1 / 2 ^ 21 \<le> dbl (now + dbl (1 / 10))" by simp
  have "dbl (now + dbl (1 / 10)) \<le> 2 * (now + dbl (1 / 10))"
    using assms s by (intro dbl_le_twice) simp
  with assms s show "dbl (now + dbl (1 / 10)) + 1 \<le> 2 ^ 32" by simp
qed

lemma no_underrun:
  assumes "later + 1 / 16 \<le> clock + 1" and "1 / 32 \<le> clock + 1"
  shows "\<not> dbl (clock + 1) < dbl (later + dbl (5 / 100))"
proof -
  have "later + dbl (5 / 100) \<le> clock + 1" using assms underrun_margin by linarith
  then have "dbl (later + dbl (5 / 100)) \<le> dbl (clock + 1)" by (rule dbl_mono)
  then show ?thesis by simp
qed

lemma three_frames:
  assumes fresh: "playbackContext vs = None" and w: "hasWindow br" "hasAudioContext br"
    and d: "decodeSamples e1 = Inr f1" "decodeSamples e2 = Inr f2" "decodeSamples e3 = Inr f3"
    and n: "f1 \<noteq> []" "f2 \<noteq> []" "f3 \<noteq> []"
    and r: "supportsRate br (fround r)"
    and one: "dbl (of_nat (length f1) / fround r) = 1" "dbl (of_nat (length f2) / fround r) = 1"
      "dbl (of_nat (length f3) / fround r) = 1"
    and t: "0 \<le> now1" "now1 \<le> 2 ^ 30" "0 \<le> now2" "now2 \<le> now1 + 1"
      "0 \<le> now3" "now3 \<le> now1 + 2"
  shows "started
      (handleAudioPlayback br now3 \<lparr>msg_data = Some e3, msg_sample_rate = Some r\<rparr>
        (handleAudioPlayback br now2 \<lparr>msg_data = Some e2, msg_sample_rate = Some r\<rparr>
          (handleAudioPlayback br now1 \<lparr>msg_data = Some e1, msg_sample_rate = Some r\<rparr> vs)))
    = started vs @
        [(dbl (now1 + dbl (1 / 10)), f1, r),
         (dbl (dbl (now1 + dbl (1 / 10)) + 1), f2, r),
         (dbl (dbl (dbl (now1 + dbl (1 / 10)) + 1) + 1), f3, r)]"
proof -
  let ?t0 = "dbl (now1 + dbl (1 / 10))"
  let ?t1 = "dbl (?t0 + 1)"
  let ?t2 = "dbl (?t1 + 1)"
  note f = first_start [OF t(1) t(2)]
  let ?v1 = "vs\<lparr>playbackContext := Some Running, playbackClock := now1,
      started := started vs @ [(?t0, f1, r)], playbackClock := ?t1\<rparr>"
  have e1: "ensurePlaybackContext br now1 vs
      = (True, vs\<lparr>playbackContext := Some Running, playbackClock := now1\<rparr>)"
    using fresh w by (simp add: ensurePlaybackContext_def)
  have h1: "handleAudioPlayback br now1 \<lparr>msg_data = Some e1, msg_sample_rate = Some r\<rparr> vs = ?v1"
    using handle_scheduled [of br vs "\<lparr>msg_data = Some e1, msg_sample_rate = Some r\<rparr>" e1 f1 now1]
      w d(1) n(1) r t(1) f(1) one(1) fresh
    by (simp add: ensurePlaybackContext_def Let_def)
  have c1: "playbackContext ?v1 = Some Running" by simp
  have e2: "ensurePlaybackContext br now2 ?v1 = (True, ?v1)"
    using w by (simp add: ensurePlaybackContext_def)
  have "\<not> ?t1 < dbl (now2 + dbl (5 / 100))"
    using f t by (intro no_underrun) simp_all
  then have k1: "\<not> playbackClock ?v1 < dbl (now2 + dbl (5 / 100))" by simp
  let ?v2 = "?v1\<lparr>started := started ?v1 @ [(?t1, f2, r)], playbackClock := ?t2\<rparr>"
  have h2: "handleAudioPlayback br now2 \<lparr>msg_data = Some e2, msg_sample_rate = Some r\<rparr> ?v1 = ?v2"
    using handle_scheduled [of br ?v1 "\<lparr>msg_data = Some e2, msg_sample_rate = Some r\<rparr>" e2 f2 now2]
      w d(2) n(2) r t(3) k1 one(2)
    by (simp add: ensurePlaybackContext_def Let_def)
  have b1: "?t0 + 1 - 1 / 2 ^ 21 \<le> ?t1"
    using f t(1) by (intro dbl_near) simp_all
  have "\<not> ?t2 < dbl (now3 + dbl (5 / 100))"
    using f b1 t by (intro no_underrun) simp_all
  then have k2: "\<not> playbackClock ?v2 < dbl (now3 + dbl (5 / 100))" by simp
  have e3: "ensurePlaybackContext br now3 ?v2 = (True, ?v2)"
    using w by (simp add: ensurePlaybackContext_def)
  let ?v3 = "?v2\<lparr>started := started ?v2 @ [(?t2, f3, r)], playbackClock := dbl (?t2 + 1)\<rparr>"
  have h3: "handleAudioPlayback br now3 \<lparr>msg_data = Some e3, msg_sample_rate = Some r\<rparr> ?v2 = ?v3"
    using handle_scheduled [of br ?v2 "\<lparr>msg_data = Some e3, msg_sample_rate = Some r\<rparr>" e3 f3 now3]
      w d(3) n(3) r t(5) k2 one(3)
    by (simp add: ensurePlaybackContext_def Let_def)
  show ?thesis
    unfolding h1 h2 h3 by simp
qed

lemma decode_silentSecond: "decodeSamples silentSecond = Inr (replicate 8000 0)"
  unfolding silentSecond_def decodeSamples_encoded by simp

text \<open>
  The values of the rounding functions at the numbers that occur in the example below.
\<close>

lemma tick_1: "dbl (1 / 10) = 3602879701896397 / 36028797018963968"
  by (rule dbl_eqI [where e = "- 4" and k = 7205759403792794]) (simp_all add: power_int_minus)

lemma tick_2: "dbl (1 / 20) = 3602879701896397 / 72057594037927936"
  by (rule dbl_eqI [where e = "- 5" and k = 7205759403792794]) (simp_all add: power_int_minus)

lemma tick_3: "fround 8000 = 8000"
  by (rule fround_eqI [where e = "12" and k = 16384000]) (simp_all add: power_int_minus)

lemma tick_4: "dbl 1 = 1"
  by (rule dbl_eqI [where e = "0" and k = 4503599627370496]) (simp_all add: power_int_minus)

lemma tick_5: "dbl (3602879701896397 / 36028797018963968) = 3602879701896397 / 36028797018963968"
  by (rule dbl_eqI [where e = "- 4" and k = 7205759403792794]) (simp_all add: power_int_minus)

lemma tick_6: "dbl (39631676720860365 / 36028797018963968) = 2476979795053773 / 2251799813685248"
  by (rule dbl_eqI [where e = "0" and k = 4953959590107546]) (simp_all add: power_int_minus)

lemma tick_7: "dbl (4728779608739021 / 2251799813685248) = 4728779608739021 / 2251799813685248"
  by (rule dbl_eqI [where e = "1" and k = 4728779608739021]) (simp_all add: power_int_minus)

lemma tick_8: "dbl (6980579422424269 / 2251799813685248) = 6980579422424269 / 2251799813685248"
  by (rule dbl_eqI [where e = "1" and k = 6980579422424269]) (simp_all add: power_int_minus)

lemma tick_9: "dbl (3602879701896397 / 72057594037927936) = 3602879701896397 / 72057594037927936"
  by (rule dbl_eqI [where e = "- 5" and k = 7205759403792794]) (simp_all add: power_int_minus)

lemma tick_10: "fround 24000 = 24000"
  by (rule fround_eqI [where e = "14" and k = 12288000]) (simp_all add: power_int_minus)

lemma tick_11: "dbl (1 / 3) = 6004799503160661 / 18014398509481984"
  by (rule dbl_eqI [where e = "- 2" and k = 6004799503160661]) (simp_all add: power_int_minus)

lemma tick_12: "dbl (363890849891536077 / 72057594037927936) = 5685794529555251 / 1125899906842624"
  by (rule dbl_eqI [where e = "2" and k = 5685794529555251]) (simp_all add: power_int_minus)

lemma tick_13: "dbl (183746864796716237 / 36028797018963968) = 2871044762448691 / 562949953421312"
  by (rule dbl_eqI [where e = "2" and k = 5742089524897382]) (simp_all add: power_int_minus)

lemma tick_14: "dbl (97878231901518773 / 18014398509481984) = 6117389493844923 / 1125899906842624"
  by (rule dbl_eqI [where e = "2" and k = 6117389493844923]) (simp_all add: power_int_minus)

lemmas ticks = tick_1 tick_2 tick_3 tick_4 tick_5 tick_6 tick_7 tick_8 tick_9 tick_10 tick_11 tick_12 tick_13 tick_14

lemma first_start_close:
  assumes "0 \<le> now" and "now \<le> 2 ^ 30"
  shows "now + 1 / 10 - 1 / 2 ^ 21 \<le> dbl (now + dbl (1 / 10))"
proof -
  have "now + dbl (1 / 10) - 1 / 2 ^ 21 \<le> dbl (now + dbl (1 / 10))"
    using assms safety_buffer by (intro dbl_near) simp_all
  then show ?thesis by (simp add: ticks)
qed


text \<open>
  C6. Whenever a frame is decoded and a buffer made for it, the playback clock is first
  reset to \<open>now + 0.1\<close> if it is below \<open>now + 0.05\<close>, the frame is started at the clock,
  and the clock is advanced by the frame's duration; sums are those of the code, in
  double precision. This holds for a declared and for the default sample rate, and also
  when the playback context is created by the call (the clock then starts at \<open>now\<close>).
  Consequently three one-second frames handled on a fresh transport, the second at most
  one second and the third at most two seconds after the first, start at \<open>t0\<close>,
  \<open>t0 + 1\<close> and \<open>t0 + 2\<close>, each at the clock the previous one left, where \<open>t0\<close> is
  \<open>now + 0.1\<close> at the first frame as the code computes it: \<open>t0\<close> is not below the
  double nearest to \<open>now\<close> plus 100 ms, and within a microsecond of the exact sum.
\<close>

theorem playback_schedule:
  "(hasWindow br \<and> (hasAudioContext br \<or> (\<exists>c. playbackContext vs = Some c \<and> c \<noteq> Closed))
      \<and> msg_data payload = Some encoded \<and> decodeSamples encoded = Inr float32 \<and> float32 \<noteq> []
      \<and> supportsRate br (fround (case msg_sample_rate payload of None \<Rightarrow> 24000 | Some r \<Rightarrow> r))
      \<and> 0 \<le> now \<longrightarrow>
      handleAudioPlayback br now payload vs =
        (let vs1 = snd (ensurePlaybackContext br now vs);
             rate = (case msg_sample_rate payload of None \<Rightarrow> 24000 | Some r \<Rightarrow> r);
             start = (if playbackClock vs1 < dbl (now + dbl (5 / 100))
                      then dbl (now + dbl (1 / 10)) else playbackClock vs1)
         in vs1\<lparr>started := started vs1 @ [(start, float32, rate)],
                playbackClock := dbl (start + dbl (of_nat (length float32) / fround rate))\<rparr>)
      \<and> started (snd (ensurePlaybackContext br now vs)) = started vs)
   \<and> (playbackContext vs = None \<and> hasWindow br \<and> hasAudioContext br
      \<and> decodeSamples e1 = Inr f1 \<and> decodeSamples e2 = Inr f2 \<and> decodeSamples e3 = Inr f3
      \<and> f1 \<noteq> [] \<and> f2 \<noteq> [] \<and> f3 \<noteq> [] \<and> supportsRate br (fround r)
      \<and> dbl (of_nat (length f1) / fround r) = 1 \<and> dbl (of_nat (length f2) / fround r) = 1
      \<and> dbl (of_nat (length f3) / fround r) = 1
      \<and> 0 \<le> now1 \<and> now1 \<le> 2 ^ 30 \<and> 0 \<le> now2 \<and> now2 \<le> now1 + 1
      \<and> 0 \<le> now3 \<and> now3 \<le> now1 + 2 \<longrightarrow>
      started
        (handleAudioPlayback br now3 \<lparr>msg_data = Some e3, msg_sample_rate = Some r\<rparr>
          (handleAudioPlayback br now2 \<lparr>msg_data = Some e2, msg_sample_rate = Some r\<rparr>
            (handleAudioPlayback br now1 \<lparr>msg_data = Some e1, msg_sample_rate = Some r\<rparr> vs)))
        = started vs @
          [(dbl (now1 + dbl (1 / 10)), f1, r),
           (dbl (dbl (now1 + dbl (1 / 10)) + 1), f2, r),
           (dbl (dbl (dbl (now1 + dbl (1 / 10)) + 1) + 1), f3, r)]
      \<and> now1 + 1 / 10 - 1 / 2 ^ 21 \<le> dbl (now1 + dbl (1 / 10))
      \<and> dbl (now1 + 1 / 10) \<le> dbl (now1 + dbl (1 / 10)))"
proof (intro conjI impI)
  assume a: "hasWindow br \<and> (hasAudioContext br \<or> (\<exists>c. playbackContext vs = Some c \<and> c \<noteq> Closed))
      \<and> msg_data payload = Some encoded \<and> decodeSamples encoded = Inr float32 \<and> float32 \<noteq> []
      \<and> supportsRate br (fround (case msg_sample_rate payload of None \<Rightarrow> 24000 | Some r \<Rightarrow> r))
      \<and> 0 \<le> now"
  then show "handleAudioPlayback br now payload vs =
        (let vs1 = snd (ensurePlaybackContext br now vs);
             rate = (case msg_sample_rate payload of None \<Rightarrow> 24000 | Some r \<Rightarrow> r);
             start = (if playbackClock vs1 < dbl (now + dbl (5 / 100))
                      then dbl (now + dbl (1 / 10)) else playbackClock vs1)
         in vs1\<lparr>started := started vs1 @ [(start, float32, rate)],
                playbackClock := dbl (start + dbl (of_nat (length float32) / fround rate))\<rparr>)"
    using handle_scheduled [of br vs payload encoded float32 now] by blast
  show "started (snd (ensurePlaybackContext br now vs)) = started vs"
    using a ensure_context [of br vs now] by simp
next
  assume a: "playbackContext vs = None \<and> hasWindow br \<and> hasAudioContext br
      \<and> decodeSamples e1 = Inr f1 \<and> decodeSamples e2 = Inr f2 \<and> decodeSamples e3 = Inr f3
      \<and> f1 \<noteq> [] \<and> f2 \<noteq> [] \<and> f3 \<noteq> [] \<and> supportsRate br (fround r)
      \<and> dbl (of_nat (length f1) / fround r) = 1 \<and> dbl (of_nat (length f2) / fround r) = 1
      \<and> dbl (of_nat (length f3) / fround r) = 1
      \<and> 0 \<le> now1 \<and> now1 \<le> 2 ^ 30 \<and> 0 \<le> now2 \<and> now2 \<le> now1 + 1
      \<and> 0 \<le> now3 \<and> now3 \<le> now1 + 2"
  then show "started
        (handleAudioPlayback br now3 \<lparr>msg_data = Some e3, msg_sample_rate = Some r\<rparr>
          (handleAudioPlayback br now2 \<lparr>msg_data = Some e2, msg_sample_rate = Some r\<rparr>
            (handleAudioPlayback br now1 \<lparr>msg_data = Some e1, msg_sample_rate = Some r\<rparr> vs)))
        = started vs @
          [(dbl (now1 + dbl (1 / 10)), f1, r),
           (dbl (dbl (now1 + dbl (1 / 10)) + 1), f2, r),
           (dbl (dbl (dbl (now1 + dbl (1 / 10)) + 1) + 1), f3, r)]"
    by (intro three_frames) simp_all
  show "now1 + 1 / 10 - 1 / 2 ^ 21 \<le> dbl (now1 + dbl (1 / 10))"
    using a by (intro first_start_close) simp_all
  show "dbl (now1 + 1 / 10) \<le> dbl (now1 + dbl (1 / 10))"
    by (intro dbl_mono) (simp add: ticks)
qed

theorem playback_schedule_witness:
  "started
     (handleAudioPlayback chrome 0 \<lparr>msg_data = Some silentSecond, msg_sample_rate = Some 8000\<rparr>
       (handleAudioPlayback chrome 0 \<lparr>msg_data = Some silentSecond, msg_sample_rate = Some 8000\<rparr>
         (handleAudioPlayback chrome 0 \<lparr>msg_data = Some silentSecond, msg_sample_rate = Some 8000\<rparr>
           newVoiceSocket)))
     = [(3602879701896397 / 36028797018963968, replicate 8000 0, 8000),
        (2476979795053773 / 2251799813685248, replicate 8000 0, 8000),
        (4728779608739021 / 2251799813685248, replicate 8000 0, 8000)]
   \<and> handleAudioPlayback chrome 5 \<lparr>msg_data = Some silentSecond, msg_sample_rate = None\<rparr>
       (newVoiceSocket\<lparr>playbackContext := Some Running, playbackClock := 2\<rparr>)
     = newVoiceSocket\<lparr>playbackContext := Some Running,
         started := [(2871044762448691 / 562949953421312, replicate 8000 0, 24000)],
         playbackClock := 6117389493844923 / 1125899906842624\<rparr>"
proof -
  have s: "supportsRate chrome (fround 8000)" "supportsRate chrome (fround 24000)"
    by (simp_all add: supportsRate_def chrome_def ticks)
  have b: "hasWindow chrome" "hasAudioContext chrome" by (simp_all add: chrome_def)
  have n: "playbackContext newVoiceSocket = None" "started newVoiceSocket = []"
    by (simp_all add: newVoiceSocket_def)
  have l: "length (replicate 8000 (0::rat)) = 8000" "replicate 8000 (0::rat) \<noteq> []" by simp_all
  have one: "dbl (of_nat (length (replicate 8000 (0::rat))) / fround 8000) = 1"
    by (simp add: ticks)
  have three: "started
     (handleAudioPlayback chrome 0 \<lparr>msg_data = Some silentSecond, msg_sample_rate = Some 8000\<rparr>
       (handleAudioPlayback chrome 0 \<lparr>msg_data = Some silentSecond, msg_sample_rate = Some 8000\<rparr>
         (handleAudioPlayback chrome 0 \<lparr>msg_data = Some silentSecond, msg_sample_rate = Some 8000\<rparr>
           newVoiceSocket)))
     = [(3602879701896397 / 36028797018963968, replicate 8000 0, 8000),
        (2476979795053773 / 2251799813685248, replicate 8000 0, 8000),
        (4728779608739021 / 2251799813685248, replicate 8000 0, 8000)]"
    using playback_schedule [where vs = newVoiceSocket and br = chrome
        and ?e1.0 = silentSecond and ?e2.0 = silentSecond and ?e3.0 = silentSecond
        and ?f1.0 = "replicate 8000 0" and ?f2.0 = "replicate 8000 0" and ?f3.0 = "replicate 8000 0"
        and r = 8000 and ?now1.0 = 0 and ?now2.0 = 0 and ?now3.0 = 0]
      s b n l(2) one decode_silentSecond
    by (simp add: ticks)
  let ?v = "newVoiceSocket\<lparr>playbackContext := Some Running, playbackClock := 2\<rparr>"
  have single: "handleAudioPlayback chrome 5 \<lparr>msg_data = Some silentSecond, msg_sample_rate = None\<rparr> ?v
     = newVoiceSocket\<lparr>playbackContext := Some Running,
         started := [(2871044762448691 / 562949953421312, replicate 8000 0, 24000)],
         playbackClock := 6117389493844923 / 1125899906842624\<rparr>"
    using playback_schedule [where vs = ?v and br = chrome
        and payload = "\<lparr>msg_data = Some silentSecond, msg_sample_rate = None\<rparr>"
        and encoded = silentSecond and ?float32.0 = "replicate 8000 0" and now = 5]
      s b l(2) decode_silentSecond
    by (simp add: ensurePlaybackContext_def Let_def newVoiceSocket_def ticks)
  from three single show ?thesis by simp
qed


section \<open>Properties of the capture pipeline\<close>

lemma process_not_handed:
  "\<not> isTransmittingRef rec \<or> socketRef rec = None
     \<or> (\<exists>vs. socketRef rec = Some vs \<and> \<not> isConnected vs) \<or> blob_size blob = 0
   \<Longrightarrow> processAudioChunk br blob rec = rec"
  by (auto simp add: processAudioChunk_def)

lemma process_keeps_recording:
  "recorderRef (processAudioChunk br blob rec) = recorderRef rec
   \<and> streamRef (processAudioChunk br blob rec) = streamRef rec
   \<and> isTransmittingRef (processAudioChunk br blob rec) = isTransmittingRef rec"
  by (simp add: processAudioChunk_def ensureAudioContext_def encode_ok
      split: sum.splits prod.splits)

lemma process_socket_changed:
  assumes "socketRef (processAudioChunk br blob rec) \<noteq> socketRef rec"
  shows "isTransmittingRef rec \<and> (\<exists>vs. socketRef rec = Some vs \<and> isConnected vs)
    \<and> blob_size blob \<noteq> 0 \<and> (\<exists>channelData. decoded blob = Inr channelData \<and> channelData \<noteq> [])"
proof -
  have g: "isTransmittingRef rec \<and> (\<exists>vs. socketRef rec = Some vs \<and> isConnected vs)
      \<and> blob_size blob \<noteq> 0"
  proof (rule ccontr)
    assume "\<not> (isTransmittingRef rec \<and> (\<exists>vs. socketRef rec = Some vs \<and> isConnected vs)
      \<and> blob_size blob \<noteq> 0)"
    then have "\<not> isTransmittingRef rec \<or> socketRef rec = None
       \<or> (\<exists>vs. socketRef rec = Some vs \<and> \<not> isConnected vs) \<or> blob_size blob = 0"
      by (cases "socketRef rec") auto
    then have "processAudioChunk br blob rec = rec" by (rule process_not_handed)
    with assms show False by simp
  qed
  have "\<exists>channelData. decoded blob = Inr channelData \<and> channelData \<noteq> []"
  proof (rule ccontr)
    assume "\<not> (\<exists>channelData. decoded blob = Inr channelData \<and> channelData \<noteq> [])"
    then have "socketRef (processAudioChunk br blob rec) = socketRef rec"
      by (auto simp add: processAudioChunk_def ensureAudioContext_def
          split: sum.splits prod.splits)
    with assms show False by simp
  qed
  with g show ?thesis by simp
qed

lemma process_handed:
  assumes "isTransmittingRef rec" and "socketRef rec = Some vs" and "socket vs = Some s"
    and "readyStateOf vs s = OPEN" and "blob_size blob \<noteq> 0"
    and "hasWindow br" and "hasAudioContext br"
    and "decoded blob = Inr channelData" and "channelData \<noteq> []"
  shows "socketRef (processAudioChunk br blob rec) =
      Some (vs\<lparr>transmitted := transmitted vs @
        [(s, \<lparr>data = b64groups (uint8View (conditionSamples channelData)),
              sample_rate = 16000, channels = 1\<rparr>)]\<rparr>)
    \<and> chunksSentRef (processAudioChunk br blob rec) = chunksSentRef rec + 1"
proof -
  have c: "isConnected vs" using assms by (simp add: isConnected_def)
  have e: "fst (ensureAudioContext br rec)"
    "socketRef (snd (ensureAudioContext br rec)) = Some vs"
    "chunksSentRef (snd (ensureAudioContext br rec)) = chunksSentRef rec"
    using assms by (simp_all add: ensureAudioContext_def)
  obtain rec1 where r: "ensureAudioContext br rec = (True, rec1)"
    using e(1) by (cases "ensureAudioContext br rec") auto
  have r1: "socketRef rec1 = Some vs" "chunksSentRef rec1 = chunksSentRef rec"
    using e r by simp_all
  show ?thesis
    using assms c r1
    by (simp add: processAudioChunk_def r encode_ok send_open)
qed


text \<open>
  The values of the rounding functions at the numbers that occur when the conditioner
  runs on the example chunk.
\<close>

lemma half_1: "dbl (3 / 25) = 1080863910568919 / 9007199254740992"
  by (rule dbl_eqI [where e = "- 4" and k = 8646911284551352]) (simp_all add: power_int_minus)

lemma half_2: "dbl (3 / 200) = 1080863910568919 / 72057594037927936"
  by (rule dbl_eqI [where e = "- 7" and k = 8646911284551352]) (simp_all add: power_int_minus)

lemma half_3: "fround (1 / 2) = 1 / 2"
  by (rule fround_eqI [where e = "- 1" and k = 8388608]) (simp_all add: power_int_minus)

lemma half_4: "dbl (1 / 2) = 1 / 2"
  by (rule dbl_eqI [where e = "- 1" and k = 4503599627370496]) (simp_all add: power_int_minus)

lemma half_5: "dbl (1080863910568919 / 18014398509481984) = 1080863910568919 / 18014398509481984"
  by (rule dbl_eqI [where e = "- 5" and k = 8646911284551352]) (simp_all add: power_int_minus)

lemma half_6: "fround (1080863910568919 / 18014398509481984) = 16106127 / 268435456"
  by (rule fround_eqI [where e = "- 5" and k = 16106127]) (simp_all add: power_int_minus)

lemma half_7: "dbl (16106127 / 8192) = 16106127 / 8192"
  by (rule dbl_eqI [where e = "10" and k = 8646911091277824]) (simp_all add: power_int_minus)

lemma half_8: "dbl (7926335344172073 / 18014398509481984) = 7926335344172073 / 18014398509481984"
  by (rule dbl_eqI [where e = "- 2" and k = 7926335344172073]) (simp_all add: power_int_minus)

lemma half_9: "dbl (8567289816582465313256461599087 / 162259276829213363391578010288128) = 3804640965202595 / 72057594037927936"
  by (rule dbl_eqI [where e = "- 5" and k = 7609281930405190]) (simp_all add: power_int_minus)

lemma half_10: "dbl (8128096607478271 / 72057594037927936) = 8128096607478271 / 72057594037927936"
  by (rule dbl_eqI [where e = "- 4" and k = 8128096607478271]) (simp_all add: power_int_minus)

lemma half_11: "fround (8128096607478271 / 72057594037927936) = 946235 / 8388608"
  by (rule fround_eqI [where e = "- 4" and k = 15139760]) (simp_all add: power_int_minus)

lemma half_12: "dbl (946235 / 256) = 946235 / 256"
  by (rule dbl_eqI [where e = "11" and k = 8128096758661120]) (simp_all add: power_int_minus)

lemmas half = half_1 half_2 half_3 half_4 half_5 half_6 half_7 half_8 half_9 half_10 half_11 half_12

lemma chunk_conditioned: "conditionSamples [1 / 2, 1 / 2] = [1966, 3696]"
  by (simp add: conditionSamples_def quantize_def toInt16_def trunc_def smoothingFactor_def
        noiseGateThreshold_def Let_def floor_rat_numeral half)

lemma chunk_bytes: "uint8View [1966, 3696] = [174, 7, 112, 14]"
  by (simp add: uint8View_def)

lemma chunk_base64: "b64groups [174, 7, 112, 14] = ''rgdwDg==''"
  by (simp add: b64char_def b64chars_def)

lemma opened_new: "socketOpened 0 (init chrome newVoiceSocket) =
   newVoiceSocket\<lparr>socket := Some 0, sockets := [OPEN], logged := [(WebSocketConnected, Success)]\<rparr>"
  unfolding init_new 
  by (simp add: socketOpened_def onopen_def flushMessageQueue_def log_msg_def readyStateOf_def
      newVoiceSocket_def)

text \<open>
  C9 (as amended). A chunk delivered while the transmit flag is clear is discarded and
  leaves every ref as it is. A chunk reaches the transport only if the flag is set and,
  besides, the transport is connected, the chunk is not empty and it decodes to at least
  one sample; when all this holds (and an audio context is available) the conditioned and
  encoded frame is transmitted. In every case the recorder and the microphone stream are
  left as they are.
\<close>

theorem chunk_gating:
  "(\<not> isTransmittingRef rec \<longrightarrow> processAudioChunk br blob rec = rec)
   \<and> (socketRef (processAudioChunk br blob rec) \<noteq> socketRef rec \<longrightarrow>
        isTransmittingRef rec \<and> (\<exists>vs. socketRef rec = Some vs \<and> isConnected vs)
        \<and> blob_size blob \<noteq> 0
        \<and> (\<exists>channelData. decoded blob = Inr channelData \<and> channelData \<noteq> []))
   \<and> (isTransmittingRef rec \<and> socketRef rec = Some vs \<and> socket vs = Some s
        \<and> readyStateOf vs s = OPEN \<and> blob_size blob \<noteq> 0 \<and> hasWindow br \<and> hasAudioContext br
        \<and> decoded blob = Inr channelData \<and> channelData \<noteq> [] \<longrightarrow>
        socketRef (processAudioChunk br blob rec) =
          Some (vs\<lparr>transmitted := transmitted vs @
            [(s, \<lparr>data = b64groups (uint8View (conditionSamples channelData)),
                  sample_rate = 16000, channels = 1\<rparr>)]\<rparr>))
   \<and> recorderRef (processAudioChunk br blob rec) = recorderRef rec
   \<and> streamRef (processAudioChunk br blob rec) = streamRef rec"
proof (intro conjI impI)
  assume "\<not> isTransmittingRef rec"
  then show "processAudioChunk br blob rec = rec"
    by (simp add: process_not_handed)
next
  assume a: "socketRef (processAudioChunk br blob rec) \<noteq> socketRef rec"
  note p = process_socket_changed [OF a]
  show "isTransmittingRef rec" using p by simp
  show "\<exists>vs. socketRef rec = Some vs \<and> isConnected vs" using p by simp
  show "blob_size blob \<noteq> 0" using p by simp
  show "\<exists>channelData. decoded blob = Inr channelData \<and> channelData \<noteq> []" using p by simp
next
  assume "isTransmittingRef rec \<and> socketRef rec = Some vs \<and> socket vs = Some s
        \<and> readyStateOf vs s = OPEN \<and> blob_size blob \<noteq> 0 \<and> hasWindow br \<and> hasAudioContext br
        \<and> decoded blob = Inr channelData \<and> channelData \<noteq> []"
  then show "socketRef (processAudioChunk br blob rec) =
          Some (vs\<lparr>transmitted := transmitted vs @
            [(s, \<lparr>data = b64groups (uint8View (conditionSamples channelData)),
                  sample_rate = 16000, channels = 1\<rparr>)]\<rparr>)"
    using process_handed [of rec vs s blob br channelData] by simp
next
  show "recorderRef (processAudioChunk br blob rec) = recorderRef rec"
    using process_keeps_recording by simp
  show "streamRef (processAudioChunk br blob rec) = streamRef rec"
    using process_keeps_recording by simp
qed

theorem chunk_gating_witness:
  "processAudioChunk chrome chunk (recorderWith False (socketOpened 0 (init chrome newVoiceSocket)))
     = recorderWith False (socketOpened 0 (init chrome newVoiceSocket))
   \<and> map_option transmitted
        (socketRef (processAudioChunk chrome chunk
          (recorderWith True (socketOpened 0 (init chrome newVoiceSocket)))))
     = Some [(0, \<lparr>data = ''rgdwDg=='', sample_rate = 16000, channels = 1\<rparr>)]
   \<and> socketRef (processAudioChunk chrome chunk
        (recorderWith True (socketOpened 0 (init chrome newVoiceSocket))))
     \<noteq> socketRef (recorderWith True (socketOpened 0 (init chrome newVoiceSocket)))
   \<and> isConnected (socketOpened 0 (init chrome newVoiceSocket))
   \<and> recorderRef (processAudioChunk chrome chunk
        (recorderWith True (socketOpened 0 (init chrome newVoiceSocket))))
   \<and> streamRef (processAudioChunk chrome chunk
        (recorderWith True (socketOpened 0 (init chrome newVoiceSocket))))"
proof -
  let ?vs = "socketOpened 0 (init chrome newVoiceSocket)"
  have off: "\<not> isTransmittingRef (recorderWith False ?vs)"
    by (simp add: recorderWith_def)
  have on: "isTransmittingRef (recorderWith True ?vs)" "socketRef (recorderWith True ?vs) = Some ?vs"
    "recorderRef (recorderWith True ?vs)" "streamRef (recorderWith True ?vs)"
    by (simp_all add: recorderWith_def)
  have v: "socket ?vs = Some 0" "readyStateOf ?vs 0 = OPEN" "transmitted ?vs = []"
    unfolding opened_new by (simp_all add: readyStateOf_def newVoiceSocket_def)
  have c: "blob_size chunk \<noteq> 0" "decoded chunk = Inr [1 / 2, 1 / 2]"
    by (simp_all add: chunk_def)
  have b: "hasWindow chrome" "hasAudioContext chrome" by (simp_all add: chrome_def)
  have d: "b64groups (uint8View (conditionSamples [1 / 2, 1 / 2])) = ''rgdwDg==''"
    by (simp only: chunk_conditioned chunk_bytes chunk_base64)
  from chunk_gating [of "recorderWith False ?vs" chrome chunk] off
  have first: "processAudioChunk chrome chunk (recorderWith False ?vs) = recorderWith False ?vs"
    by simp
  from chunk_gating [of "recorderWith True ?vs" chrome chunk ?vs 0 "[1 / 2, 1 / 2]"] on v c b d
  have second: "map_option transmitted
        (socketRef (processAudioChunk chrome chunk (recorderWith True ?vs)))
     = Some [(0, \<lparr>data = ''rgdwDg=='', sample_rate = 16000, channels = 1\<rparr>)]
   \<and> recorderRef (processAudioChunk chrome chunk (recorderWith True ?vs))
   \<and> streamRef (processAudioChunk chrome chunk (recorderWith True ?vs))"
    by simp
  have "map_option transmitted (socketRef (recorderWith True ?vs)) = Some []"
    using on v by simp
  with second have third: "socketRef (processAudioChunk chrome chunk (recorderWith True ?vs))
      \<noteq> socketRef (recorderWith True ?vs)"
    by auto
  from chunk_gating [of "recorderWith True ?vs" chrome chunk] third on
  have fourth: "isConnected ?vs" by auto
  from first second third fourth show ?thesis by simp
qed

text \<open>
  C9 as stated fails: with the transmit flag set but the socket still connecting, a
  non-empty chunk is discarded; it is neither transmitted nor queued.
\<close>

theorem chunk_not_sent_counterexample:
  "isTransmittingRef (recorderWith True (init chrome newVoiceSocket))
   \<and> processAudioChunk chrome chunk (recorderWith True (init chrome newVoiceSocket))
       = recorderWith True (init chrome newVoiceSocket)
   \<and> map_option transmitted
        (socketRef (processAudioChunk chrome chunk (recorderWith True (init chrome newVoiceSocket))))
       = Some []
   \<and> map_option messageQueue
        (socketRef (processAudioChunk chrome chunk (recorderWith True (init chrome newVoiceSocket))))
       = Some []"
proof -
  have "\<not> isConnected (init chrome newVoiceSocket)"
    unfolding init_new by (simp add: isConnected_def readyStateOf_def newVoiceSocket_def)
  then have p: "processAudioChunk chrome chunk (recorderWith True (init chrome newVoiceSocket))
       = recorderWith True (init chrome newVoiceSocket)"
    by (simp add: processAudioChunk_def recorderWith_def)
  show ?thesis
    unfolding p unfolding init_new by (simp add: recorderWith_def newVoiceSocket_def)
qed

end
